theory Spec2Isabelle
  imports Complex_Main "HOL-Library.Sublist"
begin

section \<open>Data model of logger.py\<close>

text \<open>
  Modelled from the spec: the Action (\<open>action.Action\<close>), a class that is not part
  of logger.py. \<open>action.Action(line, name, None)\<close> holds the raw record text and
  the action name; \<open>stamp\<close> holds what \<open>set_timestamp\<close> was last given (\<open>None\<close>
  until the play loop dispatches the action).
\<close>

record action =
  action_json :: string
  action_name :: string
  stamp :: "int option"

text \<open>
  Modelled from the spec: the logic engine (\<open>ts17core.interface.Interface\<close>), which
  is not part of logger.py and of which only \<open>nextTick()\<close> and the application of an
  action are used. It is represented by the history of the calls made on it:
  \<open>NextTick\<close> for \<open>nextTick()\<close> and \<open>Run t a\<close> for \<open>a.run(logic)\<close>, where \<open>t\<close>
  is the timestamp of the queue entry \<open>(t, a)\<close> the action was taken from.
\<close>

datatype event = NextTick | Run int action

type_synonym logic = "event list"

text \<open>
  \<open>LogicFault\<close>: \<open>nextTick()\<close> raised; logger.py logs it at critical level and
  re-raises. \<open>IndexError\<close>: \<open>popleft()\<close> on an empty deque.
\<close>

datatype error = LogicFault | IndexError

text \<open>Entries written to \<open>main.root_logger\<close> at error or info level.\<close>

datatype log_entry = UnexpectedEnding | CorruptedFile | SetRoundFin int

text \<open>
  Modelled from the spec: the Clock (\<open>main.Timer\<close>), which is not part of logger.py:
  a running flag and the elapsed real time. \<open>stop\<close> clears the flag; every path of
  logger.py that stops the clock assigns \<open>elapsed\<close> afterwards.
\<close>

record clock =
  running :: bool
  elapsed :: rat

definition stop :: "clock \<Rightarrow> clock" where
  "stop c = c\<lparr>running := False\<rparr>"

text \<open>
  A \<open>RepGame\<close>. \<open>ident\<close> is the identity of the Python object (two records with
  the same \<open>ident\<close> stand for the same instance); \<open>root_log\<close> is what this
  object's methods have written to the root logger. The control channel \<open>sig\<close> is
  not a field: what the play loop receives from it is an input of \<open>mainloop_pass\<close>.
\<close>

record game =
  ident :: nat
  timer :: clock
  last_action_timestamp :: int
  logic :: logic
  queue :: "(int \<times> action) list"
  action_buffer :: "(int \<times> action) option"
  root_log :: "log_entry list"

text \<open>
  \<open>__real_time\<close>: ticks to seconds. Python divides in floating point; the model
  keeps the exact quotient.
\<close>

definition ROUNDS_PER_SEC :: int where
  "ROUNDS_PER_SEC = 20"

definition real_time :: "int \<Rightarrow> rat" where
  "real_time timestamp = of_int timestamp / of_int ROUNDS_PER_SEC"

text \<open>
  \<open>nextTick F lg\<close>: the engine call. \<open>F\<close> says in which engine states the call
  raises; otherwise the engine has advanced by one tick.
\<close>

definition nextTick :: "(logic \<Rightarrow> bool) \<Rightarrow> logic \<Rightarrow> error + logic" where
  "nextTick F lg = (if F lg then Inl LogicFault else Inr (lg @ [NextTick]))"

section \<open>RepGame.set_round\<close>

text \<open>
  The loop \<open>while bound > self._last_action_timestamp: nextTick(); += 1\<close>
  (lines 152-158, 168-174 and 113-119).
\<close>

function tick_until :: "(logic \<Rightarrow> bool) \<Rightarrow> int \<Rightarrow> game \<Rightarrow> error + game" where
  "tick_until F bound g =
     (if bound > last_action_timestamp g then
        (case nextTick F (logic g) of
           Inl e \<Rightarrow> Inl e
         | Inr lg \<Rightarrow>
             tick_until F bound
               (g\<lparr>logic := lg, last_action_timestamp := last_action_timestamp g + 1\<rparr>))
      else Inr g)"
  by pat_completeness auto
termination
  by (relation "measure (\<lambda>(F, bound, g). nat (bound - last_action_timestamp g))") auto

declare tick_until.simps [simp del]

text \<open>The loop of lines 151-167, entered with the buffer already refilled.\<close>

function replay_loop :: "(logic \<Rightarrow> bool) \<Rightarrow> int \<Rightarrow> game \<Rightarrow> error + game" where
  "replay_loop F timestamp g =
     (case action_buffer g of
        None \<Rightarrow> Inr g
      | Some (t, a) \<Rightarrow>
          if t < timestamp then
            (case tick_until F t g of
               Inl e \<Rightarrow> Inl e
             | Inr g1 \<Rightarrow>
                 if action_name a = ''game_end'' then
                   Inr (g1\<lparr>timer := (timer g1)\<lparr>elapsed := real_time t\<rparr>\<rparr>)
                 else
                   (case queue g1 of
                      x # xs \<Rightarrow>
                        replay_loop F timestamp
                          (g1\<lparr>logic := logic g1 @ [Run t a],
                              action_buffer := Some x, queue := xs\<rparr>)
                    | [] \<Rightarrow>
                        Inr (g1\<lparr>logic := logic g1 @ [Run t a],
                                root_log := root_log g1 @ [UnexpectedEnding]\<rparr>)))
          else Inr g)"
  by pat_completeness auto
termination
proof (relation "measure (\<lambda>(F, timestamp, g). length (queue g))", goal_cases)
  case 1
  show ?case by simp
next
  case (2 F timestamp g x2 t a g1 x xs)
  have "queue g' = queue g0" if "tick_until F' bound g0 = Inr g'" for F' bound g0 g'
    using that
  proof (induction F' bound g0 rule: tick_until.induct)
    case (1 F' bound g0)
    show ?case
    proof (cases "bound > last_action_timestamp g0")
      case True
      with "1.prems" obtain lg where lg: "nextTick F' (logic g0) = Inr lg"
        and rec: "tick_until F' bound
            (g0\<lparr>logic := lg, last_action_timestamp := last_action_timestamp g0 + 1\<rparr>) = Inr g'"
        by (subst (asm) tick_until.simps) (auto split: sum.splits)
      from "1.IH" [OF True lg rec] show ?thesis by simp
    next
      case False
      with "1.prems" show ?thesis
        by (subst (asm) tick_until.simps) simp
    qed
  qed
  with 2 have "queue g1 = queue g"
    by blast
  with 2 show ?case by simp
qed

declare replay_loop.simps [simp del]

definition set_round :: "(logic \<Rightarrow> bool) \<Rightarrow> int \<Rightarrow> game \<Rightarrow> error + game" where
  "set_round F timestamp g =
     (if timestamp > last_action_timestamp g then
        let g1 = g\<lparr>timer := (stop (timer g))\<lparr>elapsed := real_time timestamp\<rparr>\<rparr>;
            g2 = (case (action_buffer g1, queue g1) of
                    (None, x # xs) \<Rightarrow> g1\<lparr>action_buffer := Some x, queue := xs\<rparr>
                  | _ \<Rightarrow> g1)
        in (case replay_loop F timestamp g2 of
              Inl e \<Rightarrow> Inl e
            | Inr g3 \<Rightarrow> tick_until F timestamp g3)
      else Inr g)"

section \<open>RepGame.mainloop\<close>

text \<open>
  What the play loop can take from its control channel: \<open>0\<close>, \<open>1\<close>, an
  \<open>action.Action\<close>, or a \<open>queue.Queue\<close> to acknowledge on.
\<close>

datatype signal = Stop | Toggle | Inject action | Rendezvous

text \<open>
  One pass of the \<open>while 1\<close> body reads the wall clock and the control channel.
  These readings are inputs of the model: whether the computed timeout \<open>t\<close> is
  positive, whether the channel is empty, what \<open>sig.get\<close> yields (\<open>None\<close>: it timed
  out), and the value of \<open>__logic_time(self.current_time)\<close> at line 91, at the k-th
  test of the loop of lines 95-96, at line 104 and at line 106. Any clock, exact or
  floating point, is covered by some choice of these readings.
\<close>

record obs =
  t_positive :: bool
  sig_empty :: bool
  received :: "signal option"
  now_91 :: int
  now_95 :: "nat \<Rightarrow> int"
  now_104 :: int
  now_106 :: int

text \<open>
  How a pass ends: \<open>Done\<close> is the return of line 64 (nothing buffered, queue
  empty), \<open>Stopped\<close> the return of line 77, \<open>Acked\<close> the return of line 89 after
  \<open>q.put(0)\<close>, \<open>Again\<close> a \<open>continue\<close> or the end of the body, \<open>Blocked\<close> a
  \<open>sig.get\<close> without timeout on which nothing ever arrives. Each carries the
  player's state at that point.
\<close>

datatype outcome = Done game | Stopped game | Acked game | Again game | Blocked game

fun state_of :: "outcome \<Rightarrow> game" where
  "state_of (Done g) = g"
| "state_of (Stopped g) = g"
| "state_of (Acked g) = g"
| "state_of (Again g) = g"
| "state_of (Blocked g) = g"

text \<open>
  Lines 95-102, for the buffered timestamp \<open>t\<close>; \<open>k\<close> counts the clock readings
  taken so far.
\<close>

function catch_up :: "(logic \<Rightarrow> bool) \<Rightarrow> (nat \<Rightarrow> int) \<Rightarrow> nat \<Rightarrow> int \<Rightarrow> game \<Rightarrow> error + game" where
  "catch_up F now k t g =
     (if t > last_action_timestamp g \<and> now k > last_action_timestamp g then
        (case nextTick F (logic g) of
           Inl e \<Rightarrow> Inl e
         | Inr lg \<Rightarrow>
             catch_up F now (Suc k) t
               (g\<lparr>logic := lg, last_action_timestamp := last_action_timestamp g + 1\<rparr>))
      else Inr g)"
  by pat_completeness auto
termination
  by (relation "measure (\<lambda>(F, now, k, t, g). nat (t - last_action_timestamp g))") auto

declare catch_up.simps [simp del]

text \<open>Lines 109-122: advance to the action's timestamp, stamp it and run it.\<close>

definition run_action :: "(logic \<Rightarrow> bool) \<Rightarrow> int \<times> action \<Rightarrow> game \<Rightarrow> error + outcome" where
  "run_action F next_action g =
     (case tick_until F (fst next_action) g of
        Inl e \<Rightarrow> Inl e
      | Inr g' \<Rightarrow>
          Inr (Again (g'\<lparr>logic := logic g' @
                 [Run (fst next_action)
                    ((snd next_action)\<lparr>stamp := Some (last_action_timestamp g')\<rparr>)]\<rparr>)))"

text \<open>Lines 104-108, then \<open>run_action\<close>.\<close>

definition apply_action :: "(logic \<Rightarrow> bool) \<Rightarrow> obs \<Rightarrow> int \<times> action \<Rightarrow> game \<Rightarrow> error + outcome" where
  "apply_action F ob next_action g =
     (if fst next_action < now_104 ob then
        run_action F next_action
          (g\<lparr>timer := (timer g)\<lparr>elapsed := real_time (fst next_action + 1)\<rparr>\<rparr>)
      else if fst next_action > now_106 ob then
        Inr (Again (g\<lparr>action_buffer := Some next_action\<rparr>))
      else run_action F next_action g)"

text \<open>Lines 90-103 and what follows them; \<open>b\<close> is the buffered entry.\<close>

definition dispatch ::
  "(logic \<Rightarrow> bool) \<Rightarrow> obs \<Rightarrow> (int \<times> action) option \<Rightarrow> int \<times> action \<Rightarrow> game \<Rightarrow> error + outcome" where
  "dispatch F ob next_action b g =
     (case next_action of
        None \<Rightarrow>
          if fst b \<le> now_91 ob then apply_action F ob b (g\<lparr>action_buffer := None\<rparr>)
          else (case catch_up F (now_95 ob) 0 (fst b) g of
                  Inl e \<Rightarrow> Inl e
                | Inr g' \<Rightarrow> Inr (Again g'))
      | Some na \<Rightarrow> apply_action F ob na g)"

text \<open>Lines 67-89 and the rest of the body, with \<open>b\<close> in the buffer.\<close>

definition pass_body :: "(logic \<Rightarrow> bool) \<Rightarrow> obs \<Rightarrow> int \<times> action \<Rightarrow> game \<Rightarrow> error + outcome" where
  "pass_body F ob b g =
     (if \<not> running (timer g) \<or> \<not> sig_empty ob \<or> t_positive ob then
        (case received ob of
           None \<Rightarrow> if running (timer g) then dispatch F ob None b g else Inr (Blocked g)
         | Some Stop \<Rightarrow>
             (case set_round F (last_action_timestamp g + 1) g of
                Inl e \<Rightarrow> Inl e | Inr g' \<Rightarrow> Inr (Stopped g'))
         | Some Toggle \<Rightarrow>
             Inr (Again (g\<lparr>timer := (timer g)\<lparr>running := \<not> running (timer g)\<rparr>\<rparr>))
         | Some (Inject a) \<Rightarrow> dispatch F ob (Some (last_action_timestamp g, a)) b g
         | Some Rendezvous \<Rightarrow>
             (case set_round F (last_action_timestamp g + 1) g of
                Inl e \<Rightarrow> Inl e | Inr g' \<Rightarrow> Inr (Acked g')))
      else dispatch F ob None b g)"

text \<open>One pass of the body of \<open>mainloop\<close> (lines 60-122).\<close>

definition mainloop_pass :: "(logic \<Rightarrow> bool) \<Rightarrow> obs \<Rightarrow> game \<Rightarrow> error + outcome" where
  "mainloop_pass F ob g =
     (case action_buffer g of
        None \<Rightarrow>
          (case queue g of
             [] \<Rightarrow>
               Inr (Done (g\<lparr>timer := (stop (timer g))
                                \<lparr>elapsed := real_time (last_action_timestamp g)\<rparr>\<rparr>))
           | x # xs \<Rightarrow> pass_body F ob x (g\<lparr>action_buffer := Some x, queue := xs\<rparr>))
      | Some b \<Rightarrow> pass_body F ob b g)"

text \<open>
  \<open>mainloop\<close> over the readings of its successive passes. When the readings are
  used up the loop is still running: the result is \<open>Again\<close> of the state reached.
\<close>

fun mainloop :: "(logic \<Rightarrow> bool) \<Rightarrow> obs list \<Rightarrow> game \<Rightarrow> error + outcome" where
  "mainloop F [] g = Inr (Again g)"
| "mainloop F (ob # obs) g =
     (case mainloop_pass F ob g of
        Inr (Again g') \<Rightarrow> mainloop F obs g'
      | r \<Rightarrow> r)"

section \<open>The replay source and \_load\_queue\<close>

text \<open>
  The replay file as \<open>_load_queue\<close> meets it, one item per step of reading:
  \<open>Rec t k line\<close> is a line that \<open>json.loads\<close> turns into an object whose
  \<open>get('time')\<close> is \<open>t\<close> and whose \<open>get('action')\<close> is \<open>k\<close>; \<open>BadLine\<close> is a line
  on which \<open>json.loads\<close> or \<open>j.get\<close> raises (not an \<open>OSError\<close>); \<open>IOFault\<close> is an
  \<open>OSError\<close> from \<open>gzip.open\<close> or from reading on. Nothing after a \<open>BadLine\<close> or
  an \<open>IOFault\<close> is read.
\<close>

datatype item = Rec "int option" "string option" string | BadLine | IOFault

definition synthetic_game_end :: action where
  "synthetic_game_end =
     \<lparr>action_json = ''{\"action\":\"game_end\",\"ai_id\":-2,\"time\":0}'',
      action_name = ''game_end'', stamp = None\<rparr>"

text \<open>
  The \<open>for\<close> loop with \<open>r\<close> and \<open>target\<close>. An \<open>OSError\<close> is caught: logged, the
  synthetic record appended. Any other exception leaves the \<open>try\<close> through
  \<open>finally: return r\<close>, which discards it.
\<close>

fun load_loop ::
  "item list \<Rightarrow> int \<Rightarrow> (int \<times> action) list \<Rightarrow> int \<times> (int \<times> action) list \<times> log_entry list" where
  "load_loop [] r target = (r, target, [])"
| "load_loop (Rec time k line # rest) r target =
     (let t = (case time of None \<Rightarrow> 0 | Some v \<Rightarrow> v) in
      if k \<noteq> Some ''game_end'' then
        load_loop rest r
          (target @ [(t, \<lparr>action_json = line, action_name = ''instruction'', stamp = None\<rparr>)])
      else
        load_loop rest t
          (target @ [(t, \<lparr>action_json = line, action_name = ''game_end'', stamp = None\<rparr>)]))"
| "load_loop (BadLine # rest) r target = (r, target, [])"
| "load_loop (IOFault # rest) r target =
     (r, target @ [(0, synthetic_game_end)], [CorruptedFile])"

definition load_queue ::
  "item list \<Rightarrow> (int \<times> action) list \<Rightarrow> int \<times> (int \<times> action) list \<times> log_entry list" where
  "load_queue file_name target = load_loop file_name 0 target"

section \<open>RepManager\<close>

text \<open>
  The \<open>sortedcontainers.SortedDict\<close> of checkpoints, as the list of its items in
  key order. \<open>sd_set\<close> is \<open>d[k] = v\<close>, \<open>bisect\<close> is \<open>d.bisect(t)\<close> (the position
  after the keys that are at most \<open>t\<close>), \<open>sd_iloc d i\<close> is \<open>d[d.iloc[i]]\<close> and
  \<open>sd_del_iloc d i\<close> is \<open>del d.iloc[i]\<close>.
\<close>

type_synonym 'v sorted_dict = "(int \<times> 'v) list"

definition sd_contains :: "int \<Rightarrow> 'v sorted_dict \<Rightarrow> bool" where
  "sd_contains k d = (k \<in> set (map fst d))"

fun sd_set :: "int \<Rightarrow> 'v \<Rightarrow> 'v sorted_dict \<Rightarrow> 'v sorted_dict" where
  "sd_set k v [] = [(k, v)]"
| "sd_set k v ((k', v') # d) =
     (if k < k' then (k, v) # (k', v') # d
      else if k = k' then (k, v) # d
      else (k', v') # sd_set k v d)"

definition bisect :: "int \<Rightarrow> 'v sorted_dict \<Rightarrow> nat" where
  "bisect t d = length (takeWhile (\<lambda>k. k \<le> t) (map fst d))"

definition sd_iloc :: "'v sorted_dict \<Rightarrow> nat \<Rightarrow> 'v" where
  "sd_iloc d i = snd (d ! i)"

definition sd_del_iloc :: "'v sorted_dict \<Rightarrow> nat \<Rightarrow> 'v sorted_dict" where
  "sd_del_iloc d i = take i d @ drop (Suc i) d"

text \<open>
  The notification callback held in \<open>_info_callback\<close>: the silent
  \<open>lambda _: None\<close> or one installed by the user interface.
\<close>

datatype callback = Silent | Installed nat

text \<open>
  A \<open>RepManager\<close>. \<open>msig\<close> is what has been put on its own channel \<open>self.sig\<close>,
  \<open>next_ident\<close> the identity the next \<open>RepGame\<close> object will get, \<open>mlog\<close> what
  the manager and \<open>_load_queue\<close> have written to the root logger.
\<close>

record manager =
  rep_file :: "item list"
  games :: "game sorted_dict"
  info_callback :: callback
  active_game :: game
  rounds :: int
  msig :: "bool list"
  next_ident :: nat
  mlog :: "log_entry list"

text \<open>\<open>RepGame.__init__\<close>: a stopped clock at zero, tick 0, nothing queued or buffered.\<close>

definition RepGame_init :: "nat \<Rightarrow> game" where
  "RepGame_init i =
     \<lparr>ident = i, timer = \<lparr>running = False, elapsed = 0\<rparr>, last_action_timestamp = 0,
      logic = [], queue = [], action_buffer = None, root_log = []\<rparr>"

text \<open>
  \<open>RepManager.__init__\<close> (lines 178-203): load the queue of a new player, then
  \<open>queue.popleft()[1].run(logic)\<close>, which raises on an empty queue.
\<close>

definition RepManager_init :: "item list \<Rightarrow> error + manager" where
  "RepManager_init rep_file_name =
     (let g = RepGame_init 0;
          (r, q, lg) = load_queue rep_file_name (queue g)
      in case q of
           [] \<Rightarrow> Inl IndexError
         | (t, a) # xs \<Rightarrow>
             Inr \<lparr>rep_file = rep_file_name, games = [], info_callback = Silent,
                  active_game = g\<lparr>queue := xs, logic := logic g @ [Run t a]\<rparr>,
                  rounds = r, msig = [], next_ident = 1, mlog = lg\<rparr>)"

text \<open>
  The pass of the active player's loop in which it takes the manager's queue \<open>r\<close>
  from its channel (lines 246-248 wait for it). The manager has stopped the clock,
  so the pass does call \<open>sig.get\<close>; the other readings are not used.
\<close>

definition rendezvous_obs :: obs where
  "rendezvous_obs =
     \<lparr>t_positive = False, sig_empty = False, received = Some Rendezvous,
      now_91 = 0, now_95 = (\<lambda>k. 0), now_104 = 0, now_106 = 0\<rparr>"

text \<open>Lines 265-267: wake the manager's loop, restore the callback, log.\<close>

definition finish_seek :: "callback \<Rightarrow> bool \<Rightarrow> manager \<Rightarrow> manager" where
  "finish_seek callback_backup wake m =
     m\<lparr>msig := (if wake then msig m @ [True] else msig m),
       info_callback := callback_backup,
       mlog := mlog m @ [SetRoundFin (last_action_timestamp (active_game m))]\<rparr>"

text \<open>Lines 254-259: no checkpoint at or before the target.\<close>

definition fresh_player :: "(logic \<Rightarrow> bool) \<Rightarrow> int \<Rightarrow> manager \<Rightarrow> error + manager" where
  "fresh_player F timestamp m =
     (let g = RepGame_init (next_ident m);
          (r, q, lg) = load_queue (rep_file m) (queue g);
          m1 = m\<lparr>next_ident := Suc (next_ident m), mlog := mlog m @ lg\<rparr>
      in if timestamp \<noteq> 0 then
           (case set_round F timestamp (g\<lparr>queue := q\<rparr>) of
              Inl e \<Rightarrow> Inl e
            | Inr g' \<Rightarrow> Inr (m1\<lparr>active_game := g'\<rparr>))
         else
           (case q of
              [] \<Rightarrow> Inl IndexError
            | (t, a) # xs \<Rightarrow>
                Inr (m1\<lparr>active_game := g\<lparr>queue := xs, logic := logic g @ [Run t a]\<rparr>\<rparr>)))"

text \<open>Lines 261-264: recall the checkpoint at position \<open>pos - 1\<close>.\<close>

definition recall_player :: "(logic \<Rightarrow> bool) \<Rightarrow> int \<Rightarrow> nat \<Rightarrow> manager \<Rightarrow> error + manager" where
  "recall_player F timestamp pos m =
     (let g = sd_iloc (games m) (pos - 1);
          m1 = m\<lparr>active_game := g, games := sd_del_iloc (games m) (pos - 1)\<rparr>
      in if timestamp > last_action_timestamp g then
           (case set_round F timestamp g of
              Inl e \<Rightarrow> Inl e
            | Inr g' \<Rightarrow> Inr (m1\<lparr>active_game := g'\<rparr>))
         else Inr m1)"

text \<open>
  \<open>RepManager.set_round\<close> (lines 238-267). \<open>None\<close>: the call never returns,
  because \<open>r.get()\<close> waits for an acknowledgement that the player's loop does not
  send (the loop has returned at line 64, or the engine raised in its thread).
\<close>

definition Manager_set_round :: "(logic \<Rightarrow> bool) \<Rightarrow> int \<Rightarrow> manager \<Rightarrow> (error + manager) option" where
  "Manager_set_round F timestamp m =
     (let callback_backup = info_callback m;
          m1 = m\<lparr>info_callback := Silent,
                 active_game := (active_game m)\<lparr>timer := stop (timer (active_game m))\<rparr>\<rparr>
      in if timestamp > last_action_timestamp (active_game m1) then
           (case set_round F timestamp (active_game m1) of
              Inl e \<Rightarrow> Some (Inl e)
            | Inr g' \<Rightarrow> Some (Inr (finish_seek callback_backup False (m1\<lparr>active_game := g'\<rparr>))))
         else
           (case mainloop_pass F rendezvous_obs (active_game m1) of
              Inr (Acked g) \<Rightarrow>
                (let ts = last_action_timestamp g;
                     m2 = (if \<not> sd_contains ts (games m1)
                           then m1\<lparr>active_game := g, games := sd_set ts g (games m1)\<rparr>
                           else m1\<lparr>active_game := g\<rparr>);
                     pos = bisect timestamp (games m2)
                 in case (if pos = 0 then fresh_player F timestamp m2
                          else recall_player F timestamp pos m2) of
                      Inl e \<Rightarrow> Some (Inl e)
                    | Inr m3 \<Rightarrow> Some (Inr (finish_seek callback_backup True m3)))
            | _ \<Rightarrow> None))"

text \<open>A sequence of seeks, one after the other; it stops at the first that fails.\<close>

fun seeks :: "(logic \<Rightarrow> bool) \<Rightarrow> int list \<Rightarrow> manager \<Rightarrow> (error + manager) option" where
  "seeks F [] m = Some (Inr m)"
| "seeks F (t # ts) m =
     (case Manager_set_round F t m of
        Some (Inr m') \<Rightarrow> seeks F ts m'
      | r \<Rightarrow> r)"

section \<open>Vocabulary of the properties\<close>

text \<open>An engine that never raises.\<close>

definition no_fault :: "logic \<Rightarrow> bool" where
  "no_fault lg = False"

text \<open>
  A well-formed record of the replay file: its \<open>time\<close> field (if any), its
  \<open>action\<close> field (if any) and its text. What the description says loading makes
  of it: the entry \<open>loaded_entry\<close>; and of the whole file: the total tick count
  \<open>last_game_end_time\<close>, the time of the last \<open>game_end\<close> record, 0 without one.
\<close>

type_synonym record_fields = "int option \<times> string option \<times> string"

definition Rec_of :: "record_fields \<Rightarrow> item" where
  "Rec_of rf = (case rf of (time, k, line) \<Rightarrow> Rec time k line)"

definition is_game_end :: "record_fields \<Rightarrow> bool" where
  "is_game_end rf = (case rf of (time, k, line) \<Rightarrow> k = Some ''game_end'')"

definition time_field :: "record_fields \<Rightarrow> int" where
  "time_field rf = (case rf of (time, k, line) \<Rightarrow> (case time of None \<Rightarrow> 0 | Some v \<Rightarrow> v))"

definition loaded_entry :: "record_fields \<Rightarrow> int \<times> action" where
  "loaded_entry rf =
     (time_field rf,
      \<lparr>action_json = snd (snd rf),
       action_name = (if is_game_end rf then ''game_end'' else ''instruction''),
       stamp = None\<rparr>)"

definition last_game_end_time :: "record_fields list \<Rightarrow> int" where
  "last_game_end_time recs =
     (case filter is_game_end recs of [] \<Rightarrow> 0 | x # xs \<Rightarrow> time_field (last (x # xs)))"

text \<open>
  The replay of the description's scenarios: \<open>init\<close> at tick 0, \<open>instrA\<close> at 5,
  \<open>instrB\<close> at 12 and \<open>game_end\<close> at 20, and the actions loading makes of it.
\<close>

definition example_source :: "item list" where
  "example_source =
     [Rec (Some 0) (Some ''init'') ''init'',
      Rec (Some 5) (Some ''instrA'') ''instrA'',
      Rec (Some 12) (Some ''instrB'') ''instrB'',
      Rec (Some 20) (Some ''game_end'') ''gameEnd'']"

definition ex_init :: action where
  "ex_init = \<lparr>action_json = ''init'', action_name = ''instruction'', stamp = None\<rparr>"

definition ex_instrA :: action where
  "ex_instrA = \<lparr>action_json = ''instrA'', action_name = ''instruction'', stamp = None\<rparr>"

definition ex_instrB :: action where
  "ex_instrB = \<lparr>action_json = ''instrB'', action_name = ''instruction'', stamp = None\<rparr>"

definition ex_game_end :: action where
  "ex_game_end = \<lparr>action_json = ''gameEnd'', action_name = ''game_end'', stamp = None\<rparr>"

text \<open>
  The actions run on the engine, in order, each with the timestamp of its queue
  entry; the entries a player still has to deal with (the buffered one first); and
  the entries \<open>set_round\<close> replays on its way to \<open>T\<close>: those before \<open>T\<close> that
  are not terminal.
\<close>

fun applied :: "logic \<Rightarrow> (int \<times> action) list" where
  "applied [] = []"
| "applied (NextTick # es) = applied es"
| "applied (Run t a # es) = (t, a) # applied es"

definition pending :: "game \<Rightarrow> (int \<times> action) list" where
  "pending g = (case action_buffer g of None \<Rightarrow> queue g | Some b \<Rightarrow> b # queue g)"

definition replayable :: "int \<Rightarrow> int \<times> action \<Rightarrow> bool" where
  "replayable T e = (fst e < T \<and> action_name (snd e) \<noteq> ''game_end'')"

text \<open>
  Two new players with a loaded queue: one whose replay has no terminal record, one
  whose terminal record comes early.
\<close>

definition premature_game :: game where
  "premature_game = (RepGame_init 0)\<lparr>queue := [(0, ex_init), (5, ex_instrA)]\<rparr>"

definition early_end_game :: game where
  "early_end_game =
     (RepGame_init 0)\<lparr>queue := [(0, ex_init), (5, ex_game_end), (12, ex_instrB)]\<rparr>"

text \<open>
  The number of \<open>nextTick\<close> calls in an engine history, and the relation between
  a player and a later state of it: lastTick has not decreased, the history has
  only grown, and it has grown by as many \<open>nextTick\<close> calls as lastTick has
  increased.
\<close>

definition ticks :: "logic \<Rightarrow> nat" where
  "ticks lg = count_list lg NextTick"

definition advanced :: "game \<Rightarrow> game \<Rightarrow> bool" where
  "advanced g g' \<longleftrightarrow>
     last_action_timestamp g \<le> last_action_timestamp g' \<and>
     prefix (logic g) (logic g') \<and>
     int (ticks (logic g')) - int (ticks (logic g)) =
       last_action_timestamp g' - last_action_timestamp g"

text \<open>
  Readings of a pass in which the channel yields \<open>q\<close>, and of a pass in which
  nothing arrives while the clock reads logic time \<open>n\<close>.
\<close>

definition obs_signal :: "signal \<Rightarrow> obs" where
  "obs_signal q =
     \<lparr>t_positive = False, sig_empty = False, received = Some q,
      now_91 = 0, now_95 = (\<lambda>k. 0), now_104 = 0, now_106 = 0\<rparr>"

definition obs_clock :: "int \<Rightarrow> obs" where
  "obs_clock n =
     \<lparr>t_positive = True, sig_empty = True, received = None,
      now_91 = n, now_95 = (\<lambda>k. n), now_104 = n, now_106 = n\<rparr>"

text \<open>
  No action run on the player's engine is stamped later than the player's lastTick;
  the first record of a replay file is not later than tick 0; and what holds of a
  manager between seeks: the active player and every checkpoint have run nothing
  from their future, and every checkpoint is stored under its own lastTick.
\<close>

definition no_future :: "game \<Rightarrow> bool" where
  "no_future g = list_all (\<lambda>e. fst e \<le> last_action_timestamp g) (applied (logic g))"



text \<open>
  A manager is constructed on a replay file and the seeks \<open>ts\<close> are made on it.
  \<open>seek_report\<close> reads off the result: lastTick of the active player, the actions
  run on its engine, and the total tick count.
\<close>

definition seek_from_start :: "(logic \<Rightarrow> bool) \<Rightarrow> item list \<Rightarrow> int list \<Rightarrow> (error + manager) option" where
  "seek_from_start F src ts =
     (case RepManager_init src of Inl e \<Rightarrow> Some (Inl e) | Inr m \<Rightarrow> seeks F ts m)"

definition seek_report :: "(error + manager) option \<Rightarrow> (int \<times> (int \<times> action) list \<times> int) option" where
  "seek_report r =
     (case r of
        Some (Inr m) \<Rightarrow>
          Some (last_action_timestamp (active_game m), applied (logic (active_game m)), rounds m)
      | _ \<Rightarrow> None)"


text \<open>
  The state of the checkpoint store between seeks: keys strictly increasing (one
  entry per key), no player stored twice, the active player not stored, and every
  identity in use below the next one to be given out.
\<close>

definition store_ok :: "manager \<Rightarrow> bool" where
  "store_ok m \<longleftrightarrow>
     sorted_wrt (<) (map fst (games m)) \<and>
     distinct (map (\<lambda>kg. ident (snd kg)) (games m)) \<and>
     ident (active_game m) \<notin> set (map (\<lambda>kg. ident (snd kg)) (games m)) \<and>
     ident (active_game m) < next_ident m \<and>
     list_all (\<lambda>kg. ident (snd kg) < next_ident m) (games m)"

text \<open>
  The backward seek in the words of the description. \<open>greatest_key_le\<close>: the
  greatest stored key at most the target, if any. \<open>retire\<close>: store the retired
  player under its lastTick unless that key already has an entry.
  \<open>seek_back_spec\<close>: with no such key, a new player loaded from the replay source,
  sought to the target when the target is positive, else given only the first
  queued action (the description speaks of targets from 0 on); with such a key, its
  player leaves the store, becomes the active one and is sought to the target only
  if its lastTick is before it.
\<close>

definition greatest_key_le :: "int \<Rightarrow> 'v sorted_dict \<Rightarrow> int option" where
  "greatest_key_le T d =
     (case filter (\<lambda>k. k \<le> T) (map fst d) of
        [] \<Rightarrow> None
      | k # ks \<Rightarrow> Some (Max (set (k # ks))))"

definition retire :: "game \<Rightarrow> manager \<Rightarrow> manager" where
  "retire g m =
     (if map_of (games m) (last_action_timestamp g) = None
      then m\<lparr>active_game := g, games := sd_set (last_action_timestamp g) g (games m)\<rparr>
      else m\<lparr>active_game := g\<rparr>)"

definition seek_back_spec :: "(logic \<Rightarrow> bool) \<Rightarrow> int \<Rightarrow> manager \<Rightarrow> error + manager" where
  "seek_back_spec F T m =
     (case greatest_key_le T (games m) of
        None \<Rightarrow>
          (let loaded = load_queue (rep_file m) [];
               g = (RepGame_init (next_ident m))\<lparr>queue := fst (snd loaded)\<rparr>;
               m1 = m\<lparr>next_ident := Suc (next_ident m), mlog := mlog m @ snd (snd loaded)\<rparr>
           in if T > 0 then
                (case set_round F T g of
                   Inl e \<Rightarrow> Inl e
                 | Inr g' \<Rightarrow> Inr (m1\<lparr>active_game := g'\<rparr>))
              else
                (case queue g of
                   [] \<Rightarrow> Inl IndexError
                 | (t, a) # xs \<Rightarrow>
                     Inr (m1\<lparr>active_game := g\<lparr>queue := xs, logic := logic g @ [Run t a]\<rparr>\<rparr>)))
      | Some k \<Rightarrow>
          (case map_of (games m) k of
             None \<Rightarrow> Inl IndexError
           | Some g \<Rightarrow>
               (let m1 = m\<lparr>active_game := g, games := filter (\<lambda>kg. fst kg \<noteq> k) (games m)\<rparr>
                in if last_action_timestamp g < T then
                     (case set_round F T g of
                        Inl e \<Rightarrow> Inl e
                      | Inr g' \<Rightarrow> Inr (m1\<lparr>active_game := g'\<rparr>))
                   else Inr m1)))"

section \<open>Auxiliary facts\<close>

lemma tick_until_Inr:
  "tick_until F bound g = Inr g' \<Longrightarrow>
   g' = g\<lparr>logic := logic g @ replicate (nat (bound - last_action_timestamp g)) NextTick,
          last_action_timestamp := max (last_action_timestamp g) bound\<rparr>"
proof (induction F bound g rule: tick_until.induct)
  case (1 F bound g)
  show ?case
  proof (cases "bound > last_action_timestamp g")
    case True
    with "1.prems" obtain lg where lg: "nextTick F (logic g) = Inr lg"
      and rec: "tick_until F bound
          (g\<lparr>logic := lg, last_action_timestamp := last_action_timestamp g + 1\<rparr>) = Inr g'"
      by (subst (asm) tick_until.simps) (auto split: sum.splits)
    from lg have lg': "lg = logic g @ [NextTick]"
      by (auto simp: nextTick_def split: if_splits)
    from True have n: "nat (bound - last_action_timestamp g) =
        Suc (nat (bound - (last_action_timestamp g + 1)))"
      by simp
    from "1.IH" [OF True lg rec] True show ?thesis
      by (simp add: lg' n)
  next
    case False
    with "1.prems" show ?thesis
      by (subst (asm) tick_until.simps) simp
  qed
qed

lemma tick_until_total:
  "\<forall>lg. \<not> F lg \<Longrightarrow> \<exists>g'. tick_until F bound g = Inr g'"
proof (induction F bound g rule: tick_until.induct)
  case (1 F bound g)
  show ?case
  proof (cases "bound > last_action_timestamp g")
    case True
    have lg: "nextTick F (logic g) = Inr (logic g @ [NextTick])"
      using "1.prems" by (simp add: nextTick_def)
    from "1.IH" [OF True lg "1.prems"] show ?thesis
      by (subst tick_until.simps) (simp add: True lg)
  next
    case False
    then show ?thesis
      by (subst tick_until.simps) simp
  qed
qed


lemma replay_loop_induct_Inr [consumes 1, case_names stay game_end last_action step]:
  assumes run: "replay_loop F T g = Inr g'"
    and stay: "\<And>g. (case action_buffer g of None \<Rightarrow> True | Some (t, a) \<Rightarrow> \<not> t < T) \<Longrightarrow> P g g"
    and game_end: "\<And>g t a g1. action_buffer g = Some (t, a) \<Longrightarrow> t < T \<Longrightarrow>
        tick_until F t g = Inr g1 \<Longrightarrow> action_name a = ''game_end'' \<Longrightarrow>
        P g (g1\<lparr>timer := (timer g1)\<lparr>elapsed := real_time t\<rparr>\<rparr>)"
    and last_action: "\<And>g t a g1. action_buffer g = Some (t, a) \<Longrightarrow> t < T \<Longrightarrow>
        tick_until F t g = Inr g1 \<Longrightarrow> action_name a \<noteq> ''game_end'' \<Longrightarrow> queue g1 = [] \<Longrightarrow>
        P g (g1\<lparr>logic := logic g1 @ [Run t a],
                root_log := root_log g1 @ [UnexpectedEnding]\<rparr>)"
    and step: "\<And>g t a g1 x xs g'. action_buffer g = Some (t, a) \<Longrightarrow> t < T \<Longrightarrow>
        tick_until F t g = Inr g1 \<Longrightarrow> action_name a \<noteq> ''game_end'' \<Longrightarrow> queue g1 = x # xs \<Longrightarrow>
        replay_loop F T (g1\<lparr>logic := logic g1 @ [Run t a],
                              action_buffer := Some x, queue := xs\<rparr>) = Inr g' \<Longrightarrow>
        P (g1\<lparr>logic := logic g1 @ [Run t a], action_buffer := Some x, queue := xs\<rparr>) g' \<Longrightarrow>
        P g g'"
  shows "P g g'"
proof -
  have "F' = F \<Longrightarrow> T' = T \<Longrightarrow> replay_loop F' T' g = Inr g' \<Longrightarrow> P g g'" for F' T'
  proof (induction F' T' g rule: replay_loop.induct)
  case (1 F' T' g)
  note [simp] = \<open>F' = F\<close> \<open>T' = T\<close>
  from "1.prems" have run1: "replay_loop F T g = Inr g'" by simp
  show ?case
  proof (cases "action_buffer g")
    case None
    with run1 have "g' = g"
      by (subst (asm) replay_loop.simps) simp
    moreover have "P g g"
      by (rule stay) (simp add: None)
    ultimately show ?thesis by simp
  next
    case (Some b)
    obtain t a where b: "b = (t, a)" by (cases b)
    show ?thesis
    proof (cases "t < T")
      case False
      with run1 Some b have "g' = g"
        by (subst (asm) replay_loop.simps) simp
      moreover have "P g g"
        by (rule stay) (simp add: Some b False)
      ultimately show ?thesis by simp
    next
      case True
      with run1 Some b obtain g1 where g1: "tick_until F t g = Inr g1"
        by (subst (asm) replay_loop.simps) (auto split: sum.splits)
      show ?thesis
      proof (cases "action_name a = ''game_end''")
        case ge: True
        with run1 Some b True g1
        have "g' = g1\<lparr>timer := (timer g1)\<lparr>elapsed := real_time t\<rparr>\<rparr>"
          by (subst (asm) replay_loop.simps) simp
        with game_end [OF _ True g1 ge] Some b show ?thesis by simp
      next
        case nge: False
        show ?thesis
        proof (cases "queue g1")
          case Nil
          with run1 Some b True g1 nge
          have "g' = g1\<lparr>logic := logic g1 @ [Run t a],
                root_log := root_log g1 @ [UnexpectedEnding]\<rparr>"
            by (subst (asm) replay_loop.simps) simp
          with last_action [OF _ True g1 nge Nil] Some b show ?thesis by simp
        next
          case (Cons x xs)
          with run1 Some b True g1 nge
          have rec: "replay_loop F T (g1\<lparr>logic := logic g1 @ [Run t a],
                              action_buffer := Some x, queue := xs\<rparr>) = Inr g'"
            by (subst (asm) replay_loop.simps) simp
          have "P (g1\<lparr>logic := logic g1 @ [Run t a], action_buffer := Some x, queue := xs\<rparr>) g'"
            using "1.IH" [OF Some b [symmetric] _ _ nge Cons] True g1 rec by simp
          with step [OF _ True g1 nge Cons rec] Some b show ?thesis by simp
        qed
      qed
    qed
  qed
  qed
  with run show ?thesis by simp
qed

lemma load_loop_Rec_of:
  "load_loop (Rec_of rf # rest) r target =
     load_loop rest (if is_game_end rf then time_field rf else r) (target @ [loaded_entry rf])"
  by (cases rf) (simp add: Rec_of_def is_game_end_def time_field_def loaded_entry_def Let_def)

lemma load_loop_records:
  "load_loop (map Rec_of recs) r target =
     ((case filter is_game_end recs of [] \<Rightarrow> r | x # xs \<Rightarrow> time_field (last (x # xs))),
      target @ map loaded_entry recs, [])"
proof (induction recs arbitrary: r target)
  case Nil
  show ?case by simp
next
  case (Cons rf recs)
  show ?case
    by (simp add: load_loop_Rec_of Cons.IH split: list.splits)
qed

lemma applied_append [simp]: "applied (xs @ ys) = applied xs @ applied ys"
  by (induction xs rule: applied.induct) simp_all

lemma applied_replicate_NextTick [simp]: "applied (replicate n NextTick) = []"
  by (induction n) simp_all

lemma tick_until_fields:
  assumes "tick_until F bound g = Inr g'"
  shows "applied (logic g') = applied (logic g)" and "queue g' = queue g"
    and "action_buffer g' = action_buffer g" and "timer g' = timer g"
    and "root_log g' = root_log g" and "ident g' = ident g"
    and "last_action_timestamp g' = max (last_action_timestamp g) bound"
  using tick_until_Inr [OF assms] by simp_all

lemma replay_loop_spec:
  assumes "replay_loop F T g = Inr g'"
  shows "\<forall>b. action_buffer g = Some b \<longrightarrow>
     applied (logic g') = applied (logic g) @ takeWhile (replayable T) (b # queue g) \<and>
     (dropWhile (replayable T) (b # queue g) = [] \<longrightarrow>
        action_buffer g' = Some (last (b # queue g)) \<and> queue g' = [] \<and>
        root_log g' = root_log g @ [UnexpectedEnding] \<and> timer g' = timer g) \<and>
     (\<forall>t a rest. dropWhile (replayable T) (b # queue g) = (t, a) # rest \<longrightarrow>
        action_buffer g' = Some (t, a) \<and> queue g' = rest \<and> root_log g' = root_log g \<and>
        timer g' = (if t < T then (timer g)\<lparr>elapsed := real_time t\<rparr> else timer g))"
  using assms
proof (induction rule: replay_loop_induct_Inr)
  case (stay g)
  then show ?case
    by (auto simp: replayable_def)
next
  case (game_end g t a g1)
  note f = tick_until_fields [OF \<open>tick_until F t g = Inr g1\<close>]
  have "\<not> replayable T (t, a)"
    using game_end by (simp add: replayable_def)
  with game_end show ?case
    by (simp add: f)
next
  case (last_action g t a g1)
  note f = tick_until_fields [OF \<open>tick_until F t g = Inr g1\<close>]
  have "replayable T (t, a)"
    using last_action by (simp add: replayable_def)
  with last_action show ?case
    by (simp add: f)
next
  case (step g t a g1 x xs g')
  note f = tick_until_fields [OF \<open>tick_until F t g = Inr g1\<close>]
  have "replayable T (t, a)"
    using step by (simp add: replayable_def)
  with step show ?case
    by (simp add: f)
qed

lemma replay_loop_last:
  assumes "replay_loop F T g = Inr g'"
  shows "last_action_timestamp g \<le> last_action_timestamp g' \<and>
         (last_action_timestamp g < T \<longrightarrow> last_action_timestamp g' < T) \<and>
         ident g' = ident g"
  using assms
proof (induction rule: replay_loop_induct_Inr)
  case (stay g)
  then show ?case by simp
next
  case (game_end g t a g1)
  note f = tick_until_fields [OF \<open>tick_until F t g = Inr g1\<close>]
  from game_end show ?case by (simp add: f)
next
  case (last_action g t a g1)
  note f = tick_until_fields [OF \<open>tick_until F t g = Inr g1\<close>]
  from last_action show ?case by (simp add: f)
next
  case (step g t a g1 x xs g')
  note f = tick_until_fields [OF \<open>tick_until F t g = Inr g1\<close>]
  from step show ?case by (simp add: f)
qed

lemma replay_loop_total:
  "\<forall>lg. \<not> F lg \<Longrightarrow> \<exists>g'. replay_loop F T g = Inr g'"
proof (induction F T g rule: replay_loop.induct)
  case (1 F T g)
  show ?case
  proof (cases "action_buffer g")
    case None
    then show ?thesis by (subst replay_loop.simps) simp
  next
    case (Some b)
    obtain t a where b: "b = (t, a)" by (cases b)
    obtain g1 where g1: "tick_until F t g = Inr g1"
      using tick_until_total [OF "1.prems"] by blast
    show ?thesis
    proof (cases "t < T \<and> action_name a \<noteq> ''game_end'' \<and> queue g1 \<noteq> []")
      case True
      then obtain x xs where q: "queue g1 = x # xs" by (cases "queue g1") auto
      from "1.IH" [OF Some b [symmetric] _ g1 _ q "1.prems"] True
      obtain g' where "replay_loop F T
          (g1\<lparr>logic := logic g1 @ [Run t a], action_buffer := Some x, queue := xs\<rparr>) = Inr g'"
        by blast
      with Some b g1 True q show ?thesis
        by (subst replay_loop.simps) simp
    next
      case False
      with Some b g1 show ?thesis
        by (subst replay_loop.simps) (auto split: list.splits)
    qed
  qed
qed

lemma clock_set [simp]:
  "(c::clock)\<lparr>running := r, elapsed := e\<rparr> = \<lparr>running = r, elapsed = e\<rparr>"
  by (cases c) simp

lemma set_round_split:
  assumes "set_round F T g = Inr g'" and "last_action_timestamp g < T"
  obtains g2 g3 where
    "g2 = (case (action_buffer g, queue g) of
             (None, x # xs) \<Rightarrow> g\<lparr>timer := \<lparr>running = False, elapsed = real_time T\<rparr>,
                                  action_buffer := Some x, queue := xs\<rparr>
           | _ \<Rightarrow> g\<lparr>timer := \<lparr>running = False, elapsed = real_time T\<rparr>\<rparr>)"
    and "replay_loop F T g2 = Inr g3" and "tick_until F T g3 = Inr g'"
  using assms
  by (auto simp: set_round_def stop_def Let_def split: sum.splits option.splits list.splits)

lemma set_round_spec:
  assumes run: "set_round F T g = Inr g'" and lt: "last_action_timestamp g < T"
  shows "last_action_timestamp g' = T"
    and "ident g' = ident g"
    and "applied (logic g') = applied (logic g) @ takeWhile (replayable T) (pending g)"
    and "pending g = [] \<Longrightarrow>
           action_buffer g' = None \<and> queue g' = [] \<and> root_log g' = root_log g \<and>
           timer g' = \<lparr>running = False, elapsed = real_time T\<rparr>"
    and "pending g \<noteq> [] \<Longrightarrow> dropWhile (replayable T) (pending g) = [] \<Longrightarrow>
           action_buffer g' = Some (last (pending g)) \<and> queue g' = [] \<and>
           root_log g' = root_log g @ [UnexpectedEnding] \<and>
           timer g' = \<lparr>running = False, elapsed = real_time T\<rparr>"
    and "dropWhile (replayable T) (pending g) = (t, a) # rest \<Longrightarrow>
           action_buffer g' = Some (t, a) \<and> queue g' = rest \<and> root_log g' = root_log g \<and>
           timer g' = \<lparr>running = False, elapsed = real_time (if t < T then t else T)\<rparr>"
proof -
  from run lt obtain g2 g3 where
    g2: "g2 = (case (action_buffer g, queue g) of
             (None, x # xs) \<Rightarrow> g\<lparr>timer := \<lparr>running = False, elapsed = real_time T\<rparr>,
                                  action_buffer := Some x, queue := xs\<rparr>
           | _ \<Rightarrow> g\<lparr>timer := \<lparr>running = False, elapsed = real_time T\<rparr>\<rparr>)"
    and rl: "replay_loop F T g2 = Inr g3" and tu: "tick_until F T g3 = Inr g'"
    by (rule set_round_split)
  note f = tick_until_fields [OF tu]
  note l = replay_loop_last [OF rl]
  note sp = replay_loop_spec [OF rl, rule_format]
  have g2_plain: "last_action_timestamp g2 = last_action_timestamp g" "ident g2 = ident g"
    "logic g2 = logic g" "root_log g2 = root_log g"
    "timer g2 = \<lparr>running = False, elapsed = real_time T\<rparr>"
    by (simp_all add: g2 split: option.splits list.splits)
  show "last_action_timestamp g' = T"
    using f l lt g2_plain by simp
  show "ident g' = ident g"
    using f l g2_plain by simp
  have empty: "replay_loop F T g2 = Inr g2" if "action_buffer g2 = None"
    using that by (subst replay_loop.simps) simp
  have pend: "pending g = (case action_buffer g2 of None \<Rightarrow> [] | Some b \<Rightarrow> b # queue g2)"
    by (simp add: g2 pending_def split: option.splits list.splits)
  show "applied (logic g') = applied (logic g) @ takeWhile (replayable T) (pending g)"
  proof (cases "action_buffer g2")
    case None
    with empty rl pend f g2_plain show ?thesis by simp
  next
    case (Some b)
    with sp [OF Some] pend f g2_plain show ?thesis by simp
  qed
  show "action_buffer g' = None \<and> queue g' = [] \<and> root_log g' = root_log g \<and>
           timer g' = \<lparr>running = False, elapsed = real_time T\<rparr>" if "pending g = []"
  proof -
    from that pend have n: "action_buffer g2 = None"
      by (simp split: option.splits)
    from that have "queue g2 = []"
      by (simp add: g2 pending_def split: option.splits list.splits)
    with n empty rl f g2_plain show ?thesis by simp
  qed
  show "action_buffer g' = Some (last (pending g)) \<and> queue g' = [] \<and>
           root_log g' = root_log g @ [UnexpectedEnding] \<and>
           timer g' = \<lparr>running = False, elapsed = real_time T\<rparr>"
    if "pending g \<noteq> []" and d: "dropWhile (replayable T) (pending g) = []"
  proof -
    from that pend obtain b where b: "action_buffer g2 = Some b"
      by (auto split: option.splits)
    with pend have p: "pending g = b # queue g2" by simp
    from sp [OF b] d p f g2_plain show ?thesis by simp
  qed
  show "action_buffer g' = Some (t, a) \<and> queue g' = rest \<and> root_log g' = root_log g \<and>
           timer g' = \<lparr>running = False, elapsed = real_time (if t < T then t else T)\<rparr>"
    if d: "dropWhile (replayable T) (pending g) = (t, a) # rest"
  proof -
    from d pend obtain b where b: "action_buffer g2 = Some b"
      by (auto split: option.splits)
    with pend have p: "pending g = b # queue g2" by simp
    from sp [OF b] d p f g2_plain show ?thesis by simp
  qed
qed

lemma set_round_total:
  assumes "\<forall>lg. \<not> F lg"
  shows "\<exists>g'. set_round F T g = Inr g'"
proof (cases "last_action_timestamp g < T")
  case True
  let ?g1 = "g\<lparr>timer := (stop (timer g))\<lparr>elapsed := real_time T\<rparr>\<rparr>"
  let ?g2 = "case (action_buffer ?g1, queue ?g1) of
               (None, x # xs) \<Rightarrow> ?g1\<lparr>action_buffer := Some x, queue := xs\<rparr>
             | _ \<Rightarrow> ?g1"
  obtain g3 where g3: "replay_loop F T ?g2 = Inr g3"
    using replay_loop_total [OF assms] by blast
  obtain g' where "tick_until F T g3 = Inr g'"
    using tick_until_total [OF assms] by blast
  with g3 True show ?thesis
    by (auto simp: set_round_def Let_def split: option.splits list.splits)
next
  case False
  then show ?thesis by (simp add: set_round_def)
qed

lemma ticks_append [simp]: "ticks (xs @ ys) = ticks xs + ticks ys"
  by (simp add: ticks_def)

lemma ticks_replicate [simp]: "ticks (replicate n NextTick) = n"
  by (induction n) (simp_all add: ticks_def)

lemma ticks_Run [simp]: "ticks [Run t a] = 0"
  by (simp add: ticks_def)

lemma advanced_refl [simp]: "advanced g g"
  by (simp add: advanced_def)

lemma advanced_trans: "advanced g g1 \<Longrightarrow> advanced g1 g2 \<Longrightarrow> advanced g g2"
  unfolding advanced_def by (auto intro: prefix_order.trans)

lemma advanced_from:
  "advanced g1 g' \<Longrightarrow> logic g1 = logic g \<Longrightarrow>
   last_action_timestamp g1 = last_action_timestamp g \<Longrightarrow> advanced g g'"
  by (simp add: advanced_def)

lemma advanced_run:
  "advanced g g' \<Longrightarrow> logic g1 = logic g' @ [Run t a] \<Longrightarrow>
   last_action_timestamp g1 = last_action_timestamp g' \<Longrightarrow> advanced g g1"
  unfolding advanced_def by (auto intro: prefix_order.trans)

lemma advanced_same:
  "advanced g g' \<Longrightarrow> logic g1 = logic g' \<Longrightarrow>
   last_action_timestamp g1 = last_action_timestamp g' \<Longrightarrow> advanced g g1"
  by (simp add: advanced_def)

lemma tick_until_advanced: "tick_until F bound g = Inr g' \<Longrightarrow> advanced g g'"
  by (drule tick_until_Inr) (simp add: advanced_def)

lemma catch_up_advanced: "catch_up F now k t g = Inr g' \<Longrightarrow> advanced g g'"
proof (induction F now k t g rule: catch_up.induct)
  case (1 F now k t g)
  show ?case
  proof (cases "t > last_action_timestamp g \<and> now k > last_action_timestamp g")
    case True
    with "1.prems" obtain lg where lg: "nextTick F (logic g) = Inr lg"
      and rec: "catch_up F now (Suc k) t
          (g\<lparr>logic := lg, last_action_timestamp := last_action_timestamp g + 1\<rparr>) = Inr g'"
      by (subst (asm) catch_up.simps) (auto split: sum.splits)
    from lg have lg': "lg = logic g @ [NextTick]"
      by (auto simp: nextTick_def split: if_splits)
    have "advanced g (g\<lparr>logic := lg, last_action_timestamp := last_action_timestamp g + 1\<rparr>)"
      by (simp add: advanced_def lg' ticks_def)
    with "1.IH" [OF True lg rec] show ?thesis
      by (rule advanced_trans [rotated])
  next
    case False
    with "1.prems" show ?thesis
      by (subst (asm) catch_up.simps) auto
  qed
qed

lemma replay_loop_advanced:
  assumes "replay_loop F T g = Inr g'"
  shows "advanced g g'"
  using assms
proof (induction rule: replay_loop_induct_Inr)
  case (stay g)
  show ?case by simp
next
  case (game_end g t a g1)
  from tick_until_advanced [OF \<open>tick_until F t g = Inr g1\<close>] show ?case
    by (rule advanced_same) simp_all
next
  case (last_action g t a g1)
  from tick_until_advanced [OF \<open>tick_until F t g = Inr g1\<close>] show ?case
    by (rule advanced_run) simp_all
next
  case (step g t a g1 x xs g')
  from tick_until_advanced [OF \<open>tick_until F t g = Inr g1\<close>]
  have "advanced g (g1\<lparr>logic := logic g1 @ [Run t a], action_buffer := Some x, queue := xs\<rparr>)"
    by (rule advanced_run) simp_all
  with step.IH show ?case
    by (rule advanced_trans [rotated])
qed

lemma set_round_advanced:
  assumes "set_round F T g = Inr g'"
  shows "advanced g g'"
proof (cases "last_action_timestamp g < T")
  case True
  from assms True obtain g2 g3 where
    g2: "g2 = (case (action_buffer g, queue g) of
             (None, x # xs) \<Rightarrow> g\<lparr>timer := \<lparr>running = False, elapsed = real_time T\<rparr>,
                                  action_buffer := Some x, queue := xs\<rparr>
           | _ \<Rightarrow> g\<lparr>timer := \<lparr>running = False, elapsed = real_time T\<rparr>\<rparr>)"
    and rl: "replay_loop F T g2 = Inr g3" and tu: "tick_until F T g3 = Inr g'"
    by (rule set_round_split)
  have "logic g2 = logic g" "last_action_timestamp g2 = last_action_timestamp g"
    by (simp_all add: g2 split: option.splits list.splits)
  with replay_loop_advanced [OF rl] have "advanced g g3"
    by (rule advanced_from)
  then show ?thesis
    using tick_until_advanced [OF tu] by (rule advanced_trans)
next
  case False
  with assms show ?thesis by (simp add: set_round_def)
qed

lemma run_action_advanced:
  assumes "run_action F na g = Inr out"
  shows "advanced g (state_of out)"
proof -
  from assms obtain g' where tu: "tick_until F (fst na) g = Inr g'"
    and out: "out = Again (g'\<lparr>logic := logic g' @
                 [Run (fst na) ((snd na)\<lparr>stamp := Some (last_action_timestamp g')\<rparr>)]\<rparr>)"
    by (auto simp: run_action_def split: sum.splits)
  from tick_until_advanced [OF tu] show ?thesis
    unfolding out by (rule advanced_run) simp_all
qed

lemma apply_action_advanced:
  assumes "apply_action F ob na g = Inr out"
  shows "advanced g (state_of out)"
proof (cases "fst na < now_104 ob")
  case True
  with assms have "run_action F na
          (g\<lparr>timer := (timer g)\<lparr>elapsed := real_time (fst na + 1)\<rparr>\<rparr>) = Inr out"
    by (simp add: apply_action_def)
  from run_action_advanced [OF this] show ?thesis
    by (rule advanced_from) simp_all
next
  case False
  show ?thesis
  proof (cases "fst na > now_106 ob")
    case True
    with assms False have "out = Again (g\<lparr>action_buffer := Some na\<rparr>)"
      by (simp add: apply_action_def)
    then show ?thesis by (simp add: advanced_def)
  next
    case nb: False
    with assms False have "run_action F na g = Inr out"
      by (simp add: apply_action_def)
    then show ?thesis by (rule run_action_advanced)
  qed
qed

lemma dispatch_advanced:
  assumes "dispatch F ob next_action b g = Inr out"
  shows "advanced g (state_of out)"
proof (cases next_action)
  case None
  show ?thesis
  proof (cases "fst b \<le> now_91 ob")
    case True
    with assms None have "apply_action F ob b (g\<lparr>action_buffer := None\<rparr>) = Inr out"
      by (simp add: dispatch_def)
    from apply_action_advanced [OF this] show ?thesis
      by (rule advanced_from) simp_all
  next
    case False
    with assms None obtain g' where "catch_up F (now_95 ob) 0 (fst b) g = Inr g'"
      and "out = Again g'"
      by (auto simp: dispatch_def split: sum.splits)
    then show ?thesis
      by (simp add: catch_up_advanced)
  qed
next
  case (Some na)
  with assms have "apply_action F ob na g = Inr out"
    by (simp add: dispatch_def)
  then show ?thesis by (rule apply_action_advanced)
qed

lemma pass_body_advanced:
  assumes "pass_body F ob b g = Inr out"
  shows "advanced g (state_of out)"
proof (cases "\<not> running (timer g) \<or> \<not> sig_empty ob \<or> t_positive ob")
  case False
  with assms have "dispatch F ob None b g = Inr out"
    by (simp add: pass_body_def)
  then show ?thesis by (rule dispatch_advanced)
next
  case True
  show ?thesis
  proof (cases "received ob")
    case None
    show ?thesis
    proof (cases "running (timer g)")
      case True
      with assms \<open>\<not> running (timer g) \<or> \<not> sig_empty ob \<or> t_positive ob\<close> None
      have "dispatch F ob None b g = Inr out"
        by (simp add: pass_body_def)
      then show ?thesis by (rule dispatch_advanced)
    next
      case False
      with assms None have "out = Blocked g"
        by (simp add: pass_body_def)
      then show ?thesis by simp
    qed
  next
    case (Some q)
    show ?thesis
    proof (cases q)
      case Stop
      with assms True Some obtain g' where
        "set_round F (last_action_timestamp g + 1) g = Inr g'" and "out = Stopped g'"
        by (auto simp: pass_body_def split: sum.splits)
      then show ?thesis by (simp add: set_round_advanced)
    next
      case Toggle
      with assms True Some
      have "out = Again (g\<lparr>timer := (timer g)\<lparr>running := \<not> running (timer g)\<rparr>\<rparr>)"
        by (auto simp: pass_body_def)
      then show ?thesis by (simp add: advanced_def)
    next
      case (Inject a)
      with assms True Some
      have "dispatch F ob (Some (last_action_timestamp g, a)) b g = Inr out"
        by (auto simp: pass_body_def)
      then show ?thesis by (rule dispatch_advanced)
    next
      case Rendezvous
      with assms True Some obtain g' where
        "set_round F (last_action_timestamp g + 1) g = Inr g'" and "out = Acked g'"
        by (auto simp: pass_body_def split: sum.splits)
      then show ?thesis by (simp add: set_round_advanced)
    qed
  qed
qed

lemma mainloop_pass_advanced:
  assumes "mainloop_pass F ob g = Inr out"
  shows "advanced g (state_of out)"
proof (cases "action_buffer g")
  case None
  show ?thesis
  proof (cases "queue g")
    case Nil
    with assms None show ?thesis
      by (auto simp: mainloop_pass_def advanced_def)
  next
    case (Cons x xs)
    with assms None
    have "pass_body F ob x (g\<lparr>action_buffer := Some x, queue := xs\<rparr>) = Inr out"
      by (simp add: mainloop_pass_def)
    from pass_body_advanced [OF this] show ?thesis
      by (rule advanced_from) simp_all
  qed
next
  case (Some b)
  with assms have "pass_body F ob b g = Inr out"
    by (simp add: mainloop_pass_def)
  then show ?thesis by (rule pass_body_advanced)
qed

lemma mainloop_advanced:
  "mainloop F obs g = Inr out \<Longrightarrow> advanced g (state_of out)"
proof (induction obs arbitrary: g)
  case Nil
  then show ?case by auto
next
  case (Cons ob obs)
  show ?case
  proof (cases "mainloop_pass F ob g")
    case (Inl e)
    with Cons.prems show ?thesis by simp
  next
    case (Inr o1)
    note p = mainloop_pass_advanced [OF Inr]
    show ?thesis
    proof (cases "\<exists>g1. o1 = Again g1")
      case True
      then obtain g1 where o1: "o1 = Again g1" by blast
      with Cons.prems Inr have "mainloop F obs g1 = Inr out" by simp
      from Cons.IH [OF this] p o1 show ?thesis
        by (simp add: advanced_trans)
    next
      case False
      with Cons.prems Inr have "out = o1"
        by (cases o1) auto
      with p show ?thesis by simp
    qed
  qed
qed


lemma dispatch_Again:
  "dispatch F ob na b g = Inr out \<Longrightarrow> \<exists>g'. out = Again g'"
  by (auto simp: dispatch_def apply_action_def run_action_def
      split: option.splits if_splits sum.splits)

lemma pass_body_Acked:
  assumes "pass_body F ob b g = Inr (Acked g')"
  shows "set_round F (last_action_timestamp g + 1) g = Inr g'"
proof -
  have nd: "dispatch F ob na b g \<noteq> Inr (Acked g')" for na
    using dispatch_Again [of F ob na b g "Acked g'"] by auto
  show ?thesis
  proof (cases "received ob")
    case None
    with assms nd show ?thesis
      by (auto simp: pass_body_def split: if_splits)
  next
    case (Some q)
    with assms nd show ?thesis
      by (cases q) (auto simp: pass_body_def split: if_splits sum.splits)
  qed
qed

lemma mainloop_pass_Acked:
  assumes "mainloop_pass F ob g = Inr (Acked g')"
  obtains g1 where "set_round F (last_action_timestamp g + 1) g1 = Inr g'"
    and "logic g1 = logic g" and "last_action_timestamp g1 = last_action_timestamp g"
    and "ident g1 = ident g" and "pending g1 = pending g" and "pending g \<noteq> []"
    and "root_log g1 = root_log g"
proof (cases "action_buffer g")
  case None
  show ?thesis
  proof (cases "queue g")
    case Nil
    with assms None show ?thesis by (simp add: mainloop_pass_def)
  next
    case (Cons x xs)
    with assms None
    have "pass_body F ob x (g\<lparr>action_buffer := Some x, queue := xs\<rparr>) = Inr (Acked g')"
      by (simp add: mainloop_pass_def)
    from pass_body_Acked [OF this] None Cons show ?thesis
      by (intro that [of "g\<lparr>action_buffer := Some x, queue := xs\<rparr>"])
         (simp_all add: pending_def)
  qed
next
  case (Some b)
  with assms have "pass_body F ob b g = Inr (Acked g')"
    by (simp add: mainloop_pass_def)
  from pass_body_Acked [OF this] Some show ?thesis
    by (intro that [of g]) (simp_all add: pending_def)
qed

lemma set_sd_set: "set (sd_set k v d) \<subseteq> insert (k, v) (set d)"
  by (induction d) (auto split: if_splits)



lemma bisect_le_length: "bisect T d \<le> length d"
  using length_takeWhile_le [of "\<lambda>k. k \<le> T" "map fst d"] by (simp add: bisect_def)

lemma bisect_pos_key:
  assumes "0 < bisect T d"
  shows "bisect T d - 1 < length d" and "fst (d ! (bisect T d - 1)) \<le> T"
proof -
  let ?ks = "takeWhile (\<lambda>k. k \<le> T) (map fst d)"
  from assms bisect_le_length [of T d] show i: "bisect T d - 1 < length d"
    by simp
  from assms have j: "bisect T d - 1 < length ?ks"
    by (simp add: bisect_def)
  then have "?ks ! (bisect T d - 1) \<in> set ?ks"
    by (rule nth_mem)
  then have "?ks ! (bisect T d - 1) \<le> T"
    by (auto dest: set_takeWhileD)
  moreover have "?ks ! (bisect T d - 1) = map fst d ! (bisect T d - 1)"
    using j by (rule takeWhile_nth)
  ultimately show "fst (d ! (bisect T d - 1)) \<le> T"
    using i by simp
qed

lemma RepGame_init_no_future [simp]: "no_future ((RepGame_init i)\<lparr>queue := q\<rparr>)"
  by (simp add: no_future_def RepGame_init_def)



lemma finish_seek_fields [simp]:
  "active_game (finish_seek cb w m) = active_game m"
  "games (finish_seek cb w m) = games m"
  "rep_file (finish_seek cb w m) = rep_file m"
  "rounds (finish_seek cb w m) = rounds m"
  "next_ident (finish_seek cb w m) = next_ident m"
  by (simp_all add: finish_seek_def)

lemma Manager_set_round_cases [consumes 1, case_names forward backward]:
  assumes "Manager_set_round F T m = Some (Inr m')"
  obtains (forward) g' where "last_action_timestamp (active_game m) < T"
      and "set_round F T ((active_game m)\<lparr>timer := stop (timer (active_game m))\<rparr>) = Inr g'"
      and "m' = finish_seek (info_callback m) False (m\<lparr>info_callback := Silent, active_game := g'\<rparr>)"
  | (backward) g m2 m3 where "T \<le> last_action_timestamp (active_game m)"
      and "mainloop_pass F rendezvous_obs
             ((active_game m)\<lparr>timer := stop (timer (active_game m))\<rparr>) = Inr (Acked g)"
      and "m2 = (if \<not> sd_contains (last_action_timestamp g) (games m)
                 then m\<lparr>info_callback := Silent, active_game := g,
                        games := sd_set (last_action_timestamp g) g (games m)\<rparr>
                 else m\<lparr>info_callback := Silent, active_game := g\<rparr>)"
      and "(if bisect T (games m2) = 0 then fresh_player F T m2
            else recall_player F T (bisect T (games m2)) m2) = Inr m3"
      and "m' = finish_seek (info_callback m) True m3"
proof (cases "last_action_timestamp (active_game m) < T")
  case True
  with assms obtain g' where
    "set_round F T ((active_game m)\<lparr>timer := stop (timer (active_game m))\<rparr>) = Inr g'"
    and "m' = finish_seek (info_callback m) False (m\<lparr>info_callback := Silent, active_game := g'\<rparr>)"
    by (auto simp: Manager_set_round_def Let_def split: sum.splits)
  with True show ?thesis by (rule forward)
next
  case False
  let ?a = "(active_game m)\<lparr>timer := stop (timer (active_game m))\<rparr>"
  from assms False obtain o1 where p: "mainloop_pass F rendezvous_obs ?a = Inr o1"
    by (cases "mainloop_pass F rendezvous_obs ?a") (auto simp: Manager_set_round_def Let_def)
  with assms False obtain g where o1: "o1 = Acked g"
    by (cases o1) (auto simp: Manager_set_round_def Let_def)
  let ?m2 = "if \<not> sd_contains (last_action_timestamp g) (games m)
                 then m\<lparr>info_callback := Silent, active_game := g,
                        games := sd_set (last_action_timestamp g) g (games m)\<rparr>
                 else m\<lparr>info_callback := Silent, active_game := g\<rparr>"
  from assms False p o1 obtain m3 where
    "(if bisect T (games ?m2) = 0 then fresh_player F T ?m2
            else recall_player F T (bisect T (games ?m2)) ?m2) = Inr m3"
    and "m' = finish_seek (info_callback m) True m3"
    by (auto simp: Manager_set_round_def Let_def split: sum.splits if_splits)
  with False p o1 show ?thesis
    by (intro backward [of g ?m2 m3]) simp_all
qed

lemma no_future_timer [simp]: "no_future (g\<lparr>timer := c\<rparr>) = no_future g"
  by (simp add: no_future_def)




lemma seeks_snoc:
  "seeks F (ts @ [t]) m = Some (Inr m') \<Longrightarrow>
   \<exists>m1. seeks F ts m = Some (Inr m1) \<and> Manager_set_round F t m1 = Some (Inr m')"
proof (induction ts arbitrary: m)
  case Nil
  then show ?case by (auto split: option.splits sum.splits)
next
  case (Cons a ts)
  from Cons.prems obtain m1 where s1: "Manager_set_round F a m = Some (Inr m1)"
    and rest: "seeks F (ts @ [t]) m1 = Some (Inr m')"
    by (auto split: option.splits sum.splits)
  from Cons.IH [OF rest] s1 show ?case by simp
qed

lemmas eval_defs =
  RepManager_init_def RepGame_init_def load_queue_def Manager_set_round_def finish_seek_def
  set_round_def replay_loop.simps tick_until.simps nextTick_def no_fault_def stop_def
  mainloop_pass_def pass_body_def rendezvous_obs_def fresh_player_def recall_player_def
  sd_contains_def bisect_def sd_iloc_def sd_del_iloc_def seek_from_start_def Let_def
  ex_init_def ex_instrA_def ex_instrB_def ex_game_end_def

lemma sd_set_new:
  "\<not> sd_contains k d \<Longrightarrow> \<exists>xs ys. d = xs @ ys \<and> sd_set k v d = xs @ (k, v) # ys"
proof (induction d)
  case Nil
  then show ?case by simp
next
  case (Cons x d)
  obtain k' v' where x: "x = (k', v')" by (cases x)
  show ?case
  proof (cases "k < k'")
    case True
    then have "x # d = [] @ (x # d) \<and> sd_set k v (x # d) = [] @ (k, v) # (x # d)"
      by (simp add: x)
    then show ?thesis by blast
  next
    case False
    from Cons.prems have ne: "k \<noteq> k'" and nc: "\<not> sd_contains k d"
      by (simp_all add: sd_contains_def x)
    from Cons.IH [OF nc] obtain xs ys where "d = xs @ ys" "sd_set k v d = xs @ (k, v) # ys"
      by blast
    with False ne have "x # d = (x # xs) @ ys \<and> sd_set k v (x # d) = (x # xs) @ (k, v) # ys"
      by (simp add: x)
    then show ?thesis by blast
  qed
qed

lemma sd_set_sorted:
  "sorted_wrt (<) (map fst d) \<Longrightarrow> sorted_wrt (<) (map fst (sd_set k v d))"
proof (induction d)
  case Nil
  then show ?case by simp
next
  case (Cons x d)
  obtain k' v' where x: "x = (k', v')" by (cases x)
  from Cons.prems have lo: "\<forall>y\<in>set d. k' < fst y" and sd: "sorted_wrt (<) (map fst d)"
    by (auto simp: x)
  show ?case
  proof (cases "k < k'")
    case True
    with lo sd show ?thesis
      by (auto simp: x)
  next
    case False
    show ?thesis
    proof (cases "k = k'")
      case True
      with lo sd show ?thesis by (auto simp: x)
    next
      case ne: False
      with False have "k' < k" by simp
      moreover have "\<forall>y\<in>set (sd_set k v d). fst y = k \<or> y \<in> set d"
        using set_sd_set [of k v d] by auto
      ultimately have "\<forall>y\<in>set (sd_set k v d). k' < fst y"
        using lo by fastforce
      with Cons.IH [OF sd] False ne show ?thesis
        by (simp add: x)
    qed
  qed
qed

lemma sd_del_iloc_split:
  "i < length d \<Longrightarrow> \<exists>xs ys. d = xs @ (d ! i) # ys \<and> sd_del_iloc d i = xs @ ys"
  using id_take_nth_drop [of i d] by (auto simp: sd_del_iloc_def)

lemma set_round_ident:
  assumes "set_round F T g = Inr g'"
  shows "ident g' = ident g"
proof (cases "last_action_timestamp g < T")
  case True
  with assms show ?thesis by (rule set_round_spec(2))
next
  case False
  with assms show ?thesis by (simp add: set_round_def)
qed

lemma fresh_player_store:
  assumes "fresh_player F T m = Inr m'"
  shows "games m' = games m \<and> ident (active_game m') = next_ident m \<and>
    next_ident m' = Suc (next_ident m)"
proof -
  obtain r q lg where ld: "load_queue (rep_file m) [] = (r, q, lg)"
    by (cases "load_queue (rep_file m) []")
  have q0: "queue (RepGame_init (next_ident m)) = []"
    by (simp add: RepGame_init_def)
  show ?thesis
  proof (cases "T = 0")
    case True
    with assms ld q0 show ?thesis
      by (auto simp: fresh_player_def Let_def RepGame_init_def split: list.splits)
  next
    case False
    with assms ld q0 obtain g' where
      sr: "set_round F T ((RepGame_init (next_ident m))\<lparr>queue := q\<rparr>) = Inr g'"
      and m': "m' = m\<lparr>next_ident := Suc (next_ident m), mlog := mlog m @ lg, active_game := g'\<rparr>"
      by (auto simp: fresh_player_def Let_def split: sum.splits)
    from set_round_ident [OF sr] show ?thesis
      by (simp add: m' RepGame_init_def)
  qed
qed

lemma recall_player_store:
  assumes "recall_player F T pos m = Inr m'"
  shows "games m' = sd_del_iloc (games m) (pos - 1) \<and>
    ident (active_game m') = ident (sd_iloc (games m) (pos - 1)) \<and>
    next_ident m' = next_ident m"
proof (cases "T > last_action_timestamp (sd_iloc (games m) (pos - 1))")
  case True
  with assms obtain g' where sr: "set_round F T (sd_iloc (games m) (pos - 1)) = Inr g'"
    and m': "m' = m\<lparr>active_game := g', games := sd_del_iloc (games m) (pos - 1)\<rparr>"
    by (auto simp: recall_player_def Let_def split: sum.splits)
  from set_round_ident [OF sr] show ?thesis
    by (simp add: m')
next
  case False
  with assms show ?thesis
    by (auto simp: recall_player_def Let_def)
qed

lemma Manager_set_round_store:
  assumes run: "Manager_set_round F T m = Some (Inr m')" and ok: "store_ok m"
  shows "store_ok m' \<and>
    (\<forall>kg\<in>set (games m). kg \<in> set (games m') \<or>
        ident (snd kg) = ident (active_game m') \<and> kg \<notin> set (games m')) \<and>
    (\<forall>kg\<in>set (games m'). kg \<in> set (games m) \<or>
        fst kg = last_action_timestamp (snd kg) \<and> \<not> sd_contains (fst kg) (games m) \<and>
        ident (snd kg) = ident (active_game m))"
  using run
proof (cases rule: Manager_set_round_cases)
  case (forward g')
  from set_round_ident [OF forward(2)] have "ident g' = ident (active_game m)"
    by simp
  with ok show ?thesis
    by (simp add: forward(3) store_ok_def)
next
  case (backward g m2 m3)
  let ?a = "(active_game m)\<lparr>timer := stop (timer (active_game m))\<rparr>"
  let ?ids = "map (\<lambda>kg. ident (snd kg))"
  let ?ts = "last_action_timestamp g"
  from backward(2) obtain g1 where sr: "set_round F (last_action_timestamp ?a + 1) g1 = Inr g"
    and g1: "ident g1 = ident ?a"
    by (rule mainloop_pass_Acked)
  from set_round_ident [OF sr] g1 have idg: "ident g = ident (active_game m)"
    by simp
  from ok have srt: "sorted_wrt (<) (map fst (games m))"
    and dst: "distinct (?ids (games m))"
    and act: "ident (active_game m) \<notin> set (?ids (games m))"
    and actn: "ident (active_game m) < next_ident m"
    and alln: "list_all (\<lambda>kg. ident (snd kg) < next_ident m) (games m)"
    by (simp_all add: store_ok_def)
  have n2: "next_ident m2 = next_ident m"
    by (simp add: backward(3))
  have srt2: "sorted_wrt (<) (map fst (games m2))"
    using srt by (simp add: backward(3) sd_set_sorted)
  have sub2: "set (games m2) \<subseteq> insert (?ts, g) (set (games m))"
    and sup2: "set (games m) \<subseteq> set (games m2)"
    and new2: "(?ts, g) \<in> set (games m2) \<Longrightarrow> (?ts, g) \<notin> set (games m) \<Longrightarrow>
       \<not> sd_contains ?ts (games m)"
    and dst2: "distinct (?ids (games m2))"
  proof -
    show "set (games m2) \<subseteq> insert (?ts, g) (set (games m))"
      using set_sd_set [of ?ts g "games m"] by (auto simp: backward(3))
    show "(?ts, g) \<in> set (games m2) \<Longrightarrow> (?ts, g) \<notin> set (games m) \<Longrightarrow>
       \<not> sd_contains ?ts (games m)"
      by (auto simp: backward(3) split: if_splits)
    show "set (games m) \<subseteq> set (games m2)" "distinct (?ids (games m2))"
    proof -
      have "set (games m) \<subseteq> set (games m2) \<and> distinct (?ids (games m2))"
      proof (cases "sd_contains ?ts (games m)")
        case True
        with dst show ?thesis by (simp add: backward(3))
      next
        case False
        from sd_set_new [OF False, of g] obtain xs ys where
          "games m = xs @ ys" "sd_set ?ts g (games m) = xs @ (?ts, g) # ys"
          by blast
        with False dst act idg show ?thesis
          by (auto simp: backward(3))
      qed
      then show "set (games m) \<subseteq> set (games m2)" "distinct (?ids (games m2))"
        by simp_all
    qed
  qed
  have alln2: "list_all (\<lambda>kg. ident (snd kg) < next_ident m) (games m2)"
    using alln actn idg sub2 by (auto simp: list_all_iff)
  show ?thesis
  proof (cases "bisect T (games m2) = 0")
    case True
    with backward(4) have "fresh_player F T m2 = Inr m3" by simp
    from fresh_player_store [OF this] n2
    have m3: "games m3 = games m2" "ident (active_game m3) = next_ident m"
      "next_ident m3 = Suc (next_ident m)"
      by simp_all
    have "store_ok m'"
      using srt2 dst2 alln2 by (auto simp: store_ok_def backward(5) m3 list_all_iff)
    moreover have "\<forall>kg\<in>set (games m). kg \<in> set (games m')"
      using sup2 by (auto simp: backward(5) m3)
    moreover have "\<forall>kg\<in>set (games m'). kg \<in> set (games m) \<or>
        fst kg = last_action_timestamp (snd kg) \<and> \<not> sd_contains (fst kg) (games m) \<and>
        ident (snd kg) = ident (active_game m)"
      using sub2 new2 idg by (auto simp: backward(5) m3)
    ultimately show ?thesis by blast
  next
    case False
    with backward(4) have "recall_player F T (bisect T (games m2)) m2 = Inr m3" by simp
    from recall_player_store [OF this] n2
    have m3: "games m3 = sd_del_iloc (games m2) (bisect T (games m2) - 1)"
      "ident (active_game m3) = ident (sd_iloc (games m2) (bisect T (games m2) - 1))"
      "next_ident m3 = next_ident m"
      by simp_all
    from False bisect_pos_key(1) [of T "games m2"]
    have "bisect T (games m2) - 1 < length (games m2)" by simp
    from sd_del_iloc_split [OF this] obtain xs ys where
      sp: "games m2 = xs @ (games m2 ! (bisect T (games m2) - 1)) # ys"
        "sd_del_iloc (games m2) (bisect T (games m2) - 1) = xs @ ys"
      by blast
    define kg where "kg = games m2 ! (bisect T (games m2) - 1)"
    have G2: "games m2 = xs @ kg # ys" and G3: "games m3 = xs @ ys"
      and a3: "ident (active_game m3) = ident (snd kg)"
      using sp m3 by (simp_all add: kg_def sd_iloc_def)
    from srt2 have srt3: "sorted_wrt (<) (map fst (xs @ ys))"
      by (simp add: G2 sorted_wrt_append)
    from dst2 have dst3: "distinct (?ids (xs @ ys))"
      and kgn: "ident (snd kg) \<notin> set (?ids (xs @ ys))"
      by (auto simp: G2)
    from alln2 have alln3: "list_all (\<lambda>kg. ident (snd kg) < next_ident m) (xs @ ys)"
      and kgl: "ident (snd kg) < next_ident m"
      by (simp_all add: G2)
    have "store_ok m'"
      using srt3 dst3 kgn alln3 kgl by (simp add: store_ok_def backward(5) m3(3) G3 a3)
    moreover have "\<forall>x\<in>set (games m). x \<in> set (games m') \<or>
        ident (snd x) = ident (active_game m') \<and> x \<notin> set (games m')"
    proof
      fix x assume "x \<in> set (games m)"
      with sup2 have "x \<in> set (xs @ kg # ys)" by (auto simp: G2)
      then consider "x \<in> set (xs @ ys)" | "x = kg" by auto
      then show "x \<in> set (games m') \<or>
          ident (snd x) = ident (active_game m') \<and> x \<notin> set (games m')"
      proof cases
        case 1
        then show ?thesis by (simp add: backward(5) G3)
      next
        case 2
        with kgn have "x \<notin> set (xs @ ys)" by auto
        with 2 show ?thesis by (simp add: backward(5) G3 a3)
      qed
    qed
    moreover have "\<forall>x\<in>set (games m'). x \<in> set (games m) \<or>
        fst x = last_action_timestamp (snd x) \<and> \<not> sd_contains (fst x) (games m) \<and>
        ident (snd x) = ident (active_game m)"
    proof
      fix x assume "x \<in> set (games m')"
      then have "x \<in> set (games m2)" by (auto simp: backward(5) G3 G2)
      with sub2 new2 idg show "x \<in> set (games m) \<or>
        fst x = last_action_timestamp (snd x) \<and> \<not> sd_contains (fst x) (games m) \<and>
        ident (snd x) = ident (active_game m)"
        by auto
    qed
    ultimately show ?thesis by blast
  qed
qed

lemma RepManager_init_store:
  "RepManager_init src = Inr m \<Longrightarrow> store_ok m"
  by (auto simp: RepManager_init_def RepGame_init_def store_ok_def Let_def
      split: prod.splits list.splits)

lemma seeks_store:
  "seeks F ts m = Some (Inr m') \<Longrightarrow> store_ok m \<Longrightarrow> store_ok m'"
proof (induction ts arbitrary: m)
  case Nil
  then show ?case by simp
next
  case (Cons t ts)
  from Cons.prems(1) obtain m1 where s1: "Manager_set_round F t m = Some (Inr m1)"
    and rest: "seeks F ts m1 = Some (Inr m')"
    by (auto split: option.splits sum.splits)
  from Manager_set_round_store [OF s1 Cons.prems(2)] have "store_ok m1" by simp
  with Cons.IH [OF rest] show ?case .
qed

lemma seek_from_start_snoc:
  assumes "seek_from_start F src (ts @ [t]) = Some (Inr m')"
  shows "\<exists>m. seek_from_start F src ts = Some (Inr m) \<and>
    Manager_set_round F t m = Some (Inr m')"
proof -
  from assms obtain m0 where i: "RepManager_init src = Inr m0"
    and s: "seeks F (ts @ [t]) m0 = Some (Inr m')"
    by (auto simp: seek_from_start_def split: sum.splits)
  from seeks_snoc [OF s] i show ?thesis
    by (simp add: seek_from_start_def)
qed

lemma takeWhile_le_sorted:
  "sorted_wrt (<) (ks :: int list) \<Longrightarrow> takeWhile (\<lambda>k. k \<le> T) ks = filter (\<lambda>k. k \<le> T) ks"
proof (induction ks)
  case Nil
  then show ?case by simp
next
  case (Cons k ks)
  show ?case
  proof (cases "k \<le> T")
    case True
    with Cons show ?thesis by simp
  next
    case False
    with Cons.prems have "\<forall>x\<in>set ks. \<not> x \<le> T" by auto
    then have "filter (\<lambda>k. k \<le> T) ks = []" by (simp add: filter_empty_conv)
    with False show ?thesis by simp
  qed
qed

lemma Max_sorted_last:
  "sorted_wrt (<) (ks :: int list) \<Longrightarrow> ks \<noteq> [] \<Longrightarrow> Max (set ks) = last ks"
proof (induction ks)
  case Nil
  then show ?case by simp
next
  case (Cons k ks)
  show ?case
  proof (cases "ks = []")
    case True
    then show ?thesis by simp
  next
    case False
    with Cons have "Max (set ks) = last ks" by simp
    moreover from Cons.prems False have "k < last ks" by simp
    ultimately show ?thesis using False by simp
  qed
qed

lemma sd_contains_map_of: "sd_contains k d \<longleftrightarrow> map_of d k \<noteq> None"
  by (simp add: sd_contains_def map_of_eq_None_iff)

lemma greatest_key_bisect:
  assumes "sorted_wrt (<) (map fst d)"
  shows "greatest_key_le T d =
    (if bisect T d = 0 then None else Some (fst (d ! (bisect T d - 1))))"
proof -
  let ?tw = "takeWhile (\<lambda>k. k \<le> T) (map fst d)"
  have tf: "?tw = filter (\<lambda>k. k \<le> T) (map fst d)"
    using assms by (rule takeWhile_le_sorted)
  show ?thesis
  proof (cases "bisect T d = 0")
    case True
    then have "?tw = []" by (simp add: bisect_def)
    with tf True show ?thesis by (simp add: greatest_key_le_def)
  next
    case False
    then have ne: "?tw \<noteq> []" by (auto simp: bisect_def)
    have "sorted_wrt (<) ?tw"
      unfolding tf using assms by (rule sorted_wrt_filter)
    with ne have "Max (set ?tw) = last ?tw" by (rule Max_sorted_last [rotated])
    also have "\<dots> = ?tw ! (bisect T d - 1)"
      using ne by (simp add: last_conv_nth bisect_def)
    also have "\<dots> = map fst d ! (bisect T d - 1)"
      using False by (intro takeWhile_nth) (simp add: bisect_def)
    also have "\<dots> = fst (d ! (bisect T d - 1))"
      using False bisect_pos_key(1) [of T d] by simp
    finally have mx: "Max (set ?tw) = fst (d ! (bisect T d - 1))" .
    from ne obtain k ks where kk: "?tw = k # ks"
      by (cases ?tw) auto
    from kk have "filter (\<lambda>k. k \<le> T) (map fst d) = k # ks"
      by (simp add: tf)
    then have "greatest_key_le T d = Some (Max (set (k # ks)))"
      by (simp add: greatest_key_le_def)
    with kk have "greatest_key_le T d = Some (Max (set ?tw))"
      by simp
    with mx False show ?thesis
      by simp
  qed
qed

lemma sorted_keys_nth:
  assumes "sorted_wrt (<) (map fst d)" and "i < length d"
  shows "map_of d (fst (d ! i)) = Some (snd (d ! i))"
    and "filter (\<lambda>kg. fst kg \<noteq> fst (d ! i)) d = sd_del_iloc d i"
proof -
  from assms(1) have dk: "distinct (map fst d)"
    by (simp add: strict_sorted_iff)
  from assms(2) have "d ! i \<in> set d" by (rule nth_mem)
  with dk show "map_of d (fst (d ! i)) = Some (snd (d ! i))"
    by (simp add: map_of_eq_Some_iff)
  from sd_del_iloc_split [OF assms(2)] obtain xs ys where
    sp: "d = xs @ (d ! i) # ys" and del: "sd_del_iloc d i = xs @ ys"
    by blast
  from dk have "distinct (map fst (xs @ (d ! i) # ys))"
    using sp by simp
  then have "fst (d ! i) \<notin> fst ` set xs" "fst (d ! i) \<notin> fst ` set ys"
    by simp_all
  then have "\<forall>x\<in>set xs \<union> set ys. fst x \<noteq> fst (d ! i)"
    by (metis Un_iff imageI)
  then have "filter (\<lambda>kg. fst kg \<noteq> fst (d ! i)) (xs @ (d ! i) # ys) = xs @ ys"
    by (simp add: filter_id_conv)
  with sp del show "filter (\<lambda>kg. fst kg \<noteq> fst (d ! i)) d = sd_del_iloc d i"
    by simp
qed

lemma select_refines:
  assumes srt: "sorted_wrt (<) (map fst (games m))" and T: "0 \<le> T"
  shows "(if bisect T (games m) = 0 then fresh_player F T m
          else recall_player F T (bisect T (games m)) m) = seek_back_spec F T m"
proof (cases "bisect T (games m) = 0")
  case True
  with greatest_key_bisect [OF srt, of T] have "greatest_key_le T (games m) = None"
    by simp
  moreover from T have "(T \<noteq> 0) = (0 < T)" by auto
  moreover obtain r q lg where "load_queue (rep_file m) [] = (r, q, lg)"
    by (cases "load_queue (rep_file m) []")
  ultimately show ?thesis
    using True
    by (simp add: fresh_player_def seek_back_spec_def Let_def RepGame_init_def
        split: list.splits sum.splits)
next
  case False
  let ?i = "bisect T (games m) - 1"
  from False bisect_pos_key(1) [of T "games m"] have i: "?i < length (games m)"
    by simp
  from greatest_key_bisect [OF srt, of T] False
  have "greatest_key_le T (games m) = Some (fst (games m ! ?i))"
    by simp
  moreover note sorted_keys_nth [OF srt i]
  ultimately show ?thesis
    using False
    by (simp add: recall_player_def seek_back_spec_def Let_def sd_iloc_def)
qed

section \<open>Properties\<close>




text \<open>
  C2. A seek of the manager to a tick at or before lastTick of the active player
  (and not negative), once the player's loop has acknowledged and the player is
  retired, does what the description says (\<open>seek_back_spec\<close>): it takes the
  checkpoint with the greatest key at most the target; without one it builds a new
  player loaded from the replay source and seeks it to the target when the target
  is positive, or runs only the first queued action when the target is 0; with one
  it removes that player from the store, makes it the active player and seeks it
  only if its lastTick is before the target. The positions \<open>bisect\<close>,
  \<open>iloc[pos - 1]\<close> and \<open>del iloc[pos - 1]\<close> of the code are that key, its
  entry and its removal, the store being in key order.
\<close>

theorem backward_seek_selects_checkpoint:
  assumes "T \<le> last_action_timestamp (active_game m)" and "0 \<le> T"
    and "sorted_wrt (<) (map fst (games m))"
    and "mainloop_pass F rendezvous_obs
           ((active_game m)\<lparr>timer := stop (timer (active_game m))\<rparr>) = Inr (Acked g)"
  shows "Manager_set_round F T m =
    Some (map_sum id (finish_seek (info_callback m) True)
           (seek_back_spec F T (retire g (m\<lparr>info_callback := Silent\<rparr>))))"
proof -
  let ?m2 = "retire g (m\<lparr>info_callback := Silent\<rparr>)"
  have srt2: "sorted_wrt (<) (map fst (games ?m2))"
    using assms(3) by (simp add: retire_def sd_set_sorted)
  have "Manager_set_round F T m =
    (case (if bisect T (games ?m2) = 0 then fresh_player F T ?m2
           else recall_player F T (bisect T (games ?m2)) ?m2) of
       Inl e \<Rightarrow> Some (Inl e)
     | Inr m3 \<Rightarrow> Some (Inr (finish_seek (info_callback m) True m3)))"
    using assms(1,4)
    by (simp add: Manager_set_round_def Let_def retire_def sd_contains_map_of)
  also have "\<dots> = Some (map_sum id (finish_seek (info_callback m) True)
           (seek_back_spec F T ?m2))"
    unfolding select_refines [OF srt2 assms(2)]
    by (simp split: sum.splits)
  finally show ?thesis .
qed

theorem backward_seek_selects_checkpoint_witness:
  "\<exists>m g. seek_from_start no_fault example_source [8, 3, 3, 12] = Some (Inr m) \<and>
      5 \<le> last_action_timestamp (active_game m) \<and> (0::int) \<le> 5 \<and>
      sorted_wrt (<) (map fst (games m)) \<and>
      mainloop_pass no_fault rendezvous_obs
        ((active_game m)\<lparr>timer := stop (timer (active_game m))\<rparr>) = Inr (Acked g) \<and>
      greatest_key_le 5 (games (retire g (m\<lparr>info_callback := Silent\<rparr>))) = Some 4 \<and>
      Manager_set_round no_fault 5 m =
        Some (map_sum id (finish_seek (info_callback m) True)
               (seek_back_spec no_fault 5 (retire g (m\<lparr>info_callback := Silent\<rparr>)))) \<and>
      seek_report (Manager_set_round no_fault 5 m) = Some (5, [(0, ex_init)], 20)"
proof -
  obtain m g where run: "seek_from_start no_fault example_source [8, 3, 3, 12] = Some (Inr m)"
    and h1: "5 \<le> last_action_timestamp (active_game m)"
    and h3: "sorted_wrt (<) (map fst (games m))"
    and ack: "mainloop_pass no_fault rendezvous_obs
        ((active_game m)\<lparr>timer := stop (timer (active_game m))\<rparr>) = Inr (Acked g)"
    and gk: "greatest_key_le 5 (games (retire g (m\<lparr>info_callback := Silent\<rparr>))) = Some 4"
    and rep: "seek_report (Manager_set_round no_fault 5 m) = Some (5, [(0, ex_init)], 20)"
    by (simp add: example_source_def eval_defs greatest_key_le_def retire_def seek_report_def)
  from backward_seek_selects_checkpoint [OF h1 _ h3 ack] run h1 h3 ack gk rep show ?thesis
    by (intro exI [of _ m] exI [of _ g]) simp
qed

text \<open>
  C3. \<open>RepGame.set_round\<close> never runs a \<open>game_end\<close> action: the actions it adds
  to the engine history are all non-terminal. When the first pending entry that is
  not an instruction before the target is a terminal action before the target, the
  seek leaves it in the buffer and the rest in the queue, and the clock's elapsed
  time is that action's timestamp in real time. On the replay \<open>init\<close> at 0,
  \<open>instrA\<close> at 5, \<open>instrB\<close> at 12, \<open>game_end\<close> at 20, a new manager that seeks
  to 20 has run \<open>init\<close>, \<open>instrA\<close>, \<open>instrB\<close> in this order, between the
  ticks, is at tick 20 and holds \<open>game_end\<close> in its buffer, not run.
\<close>

theorem set_round_never_applies_game_end:
  "(set_round F T g = Inr g' \<longrightarrow>
      (\<exists>new. applied (logic g') = applied (logic g) @ new \<and>
         (\<forall>e\<in>set new. action_name (snd e) \<noteq> ''game_end'')) \<and>
      (\<forall>t a rest. last_action_timestamp g < T \<and>
           dropWhile (replayable T) (pending g) = (t, a) # rest \<and> t < T \<longrightarrow>
         action_name a = ''game_end'' \<and> action_buffer g' = Some (t, a) \<and> queue g' = rest \<and>
         elapsed (timer g') = real_time t \<and> last_action_timestamp g' = T)) \<and>
   (\<exists>m0 m1. RepManager_init example_source = Inr m0 \<and>
      Manager_set_round no_fault 20 m0 = Some (Inr m1) \<and>
      logic (active_game m1) =
        Run 0 ex_init # replicate 5 NextTick @ Run 5 ex_instrA # replicate 7 NextTick @
        Run 12 ex_instrB # replicate 8 NextTick \<and>
      last_action_timestamp (active_game m1) = 20 \<and>
      action_buffer (active_game m1) = Some (20, ex_game_end) \<and>
      queue (active_game m1) = [])"
proof -
  have A: "\<exists>new. applied (logic g') = applied (logic g) @ new \<and>
         (\<forall>e\<in>set new. action_name (snd e) \<noteq> ''game_end'')"
    if run: "set_round F T g = Inr g'"
  proof (cases "last_action_timestamp g < T")
    case True
    have "\<forall>e\<in>set (takeWhile (replayable T) (pending g)). action_name (snd e) \<noteq> ''game_end''"
      by (auto dest: set_takeWhileD simp: replayable_def)
    with set_round_spec(3) [OF run True] show ?thesis by blast
  next
    case False
    with run have "g' = g" by (simp add: set_round_def)
    then show ?thesis by simp
  qed
  have B: "action_name a = ''game_end'' \<and> action_buffer g' = Some (t, a) \<and>
      queue g' = rest \<and> elapsed (timer g') = real_time t \<and> last_action_timestamp g' = T"
    if run: "set_round F T g = Inr g'" and lt: "last_action_timestamp g < T"
      and d: "dropWhile (replayable T) (pending g) = (t, a) # rest" and t: "t < T"
    for t a rest
  proof -
    from d have "\<not> replayable T (t, a)"
      by (metis hd_dropWhile list.distinct(1) list.sel(1))
    with t have "action_name a = ''game_end''"
      by (simp add: replayable_def)
    moreover note set_round_spec(1) [OF run lt] set_round_spec(6) [OF run lt d]
    ultimately show ?thesis
      using t by simp
  qed
  have C: "\<exists>m0 m1. RepManager_init example_source = Inr m0 \<and>
      Manager_set_round no_fault 20 m0 = Some (Inr m1) \<and>
      logic (active_game m1) =
        Run 0 ex_init # replicate 5 NextTick @ Run 5 ex_instrA # replicate 7 NextTick @
        Run 12 ex_instrB # replicate 8 NextTick \<and>
      last_action_timestamp (active_game m1) = 20 \<and>
      action_buffer (active_game m1) = Some (20, ex_game_end) \<and>
      queue (active_game m1) = []"
    by (simp add: RepManager_init_def RepGame_init_def load_queue_def example_source_def
        Manager_set_round_def finish_seek_def set_round_def replay_loop.simps
        tick_until.simps nextTick_def no_fault_def stop_def ex_init_def ex_instrA_def
        ex_instrB_def ex_game_end_def numeral_eq_Suc)
  from A B C show ?thesis by blast
qed

theorem set_round_never_applies_game_end_witness:
  "last_action_timestamp early_end_game < 10 \<and>
   dropWhile (replayable 10) (pending early_end_game) = (5, ex_game_end) # [(12, ex_instrB)] \<and>
   (\<exists>g'. set_round no_fault 10 early_end_game = Inr g' \<and>
      action_buffer g' = Some (5, ex_game_end) \<and> queue g' = [(12, ex_instrB)] \<and>
      elapsed (timer g') = real_time 5 \<and> last_action_timestamp g' = 10)"
proof -
  have lt: "last_action_timestamp early_end_game < 10"
    by (simp add: early_end_game_def RepGame_init_def)
  have d: "dropWhile (replayable 10) (pending early_end_game) =
      (5, ex_game_end) # [(12, ex_instrB)]"
    by (simp add: early_end_game_def RepGame_init_def pending_def replayable_def
        ex_init_def ex_game_end_def)
  obtain g' where run: "set_round no_fault 10 early_end_game = Inr g'"
    using set_round_total [of no_fault 10 early_end_game] by (auto simp: no_fault_def)
  from set_round_never_applies_game_end [of no_fault 10 early_end_game g'] run lt d
  have "action_buffer g' = Some (5, ex_game_end) \<and> queue g' = [(12, ex_instrB)] \<and>
      elapsed (timer g') = real_time 5 \<and> last_action_timestamp g' = 10"
    by simp
  with lt d run show ?thesis by blast
qed

text \<open>
  C4 (as amended). When every pending entry (the buffered one and the queue) lies
  before the seek target and none is terminal, the replay of \<open>RepGame.set_round\<close>
  runs out of queue: it applies them all, writes one error entry to the root logger
  and stops replaying. This is not fatal: with an engine that does not raise the
  seek returns. The final loop still advances the remaining ticks, so lastTick
  reaches the requested target.
\<close>

theorem set_round_premature_end:
  "last_action_timestamp g < T \<Longrightarrow> pending g \<noteq> [] \<Longrightarrow>
   \<forall>e\<in>set (pending g). replayable T e \<Longrightarrow>
   ((\<forall>lg. \<not> F lg) \<longrightarrow> (\<exists>g'. set_round F T g = Inr g')) \<and>
   (\<forall>g'. set_round F T g = Inr g' \<longrightarrow>
      root_log g' = root_log g @ [UnexpectedEnding] \<and>
      applied (logic g') = applied (logic g) @ pending g \<and> queue g' = [] \<and>
      last_action_timestamp g' = T)"
proof (intro conjI allI impI)
  assume "\<forall>lg. \<not> F lg"
  then show "\<exists>g'. set_round F T g = Inr g'"
    by (rule set_round_total)
next
  fix g'
  assume lt: "last_action_timestamp g < T" and ne: "pending g \<noteq> []"
    and all: "\<forall>e\<in>set (pending g). replayable T e"
    and run: "set_round F T g = Inr g'"
  from all have tw: "takeWhile (replayable T) (pending g) = pending g"
    and dw: "dropWhile (replayable T) (pending g) = []"
    by simp_all
  note sp = set_round_spec [OF run lt]
  show "root_log g' = root_log g @ [UnexpectedEnding]"
    using sp(5) [OF ne dw] by simp
  show "applied (logic g') = applied (logic g) @ pending g"
    using sp(3) tw by simp
  show "queue g' = []"
    using sp(5) [OF ne dw] by simp
  show "last_action_timestamp g' = T"
    by (rule sp(1))
qed

theorem set_round_premature_end_witness:
  "last_action_timestamp premature_game < 10 \<and>
   pending premature_game = [(0, ex_init), (5, ex_instrA)] \<and>
   replayable 10 (0, ex_init) \<and> replayable 10 (5, ex_instrA) \<and>
   (\<exists>g'. set_round no_fault 10 premature_game = Inr g' \<and>
      root_log g' = [UnexpectedEnding] \<and>
      applied (logic g') = [(0, ex_init), (5, ex_instrA)] \<and> queue g' = [] \<and>
      last_action_timestamp g' = 10)"
proof -
  have h1: "last_action_timestamp premature_game < 10"
    by (simp add: premature_game_def RepGame_init_def)
  have p: "pending premature_game = [(0, ex_init), (5, ex_instrA)]"
    by (simp add: premature_game_def RepGame_init_def pending_def)
  have r: "replayable 10 (0, ex_init)" "replayable 10 (5, ex_instrA)"
    by (simp_all add: replayable_def ex_init_def ex_instrA_def)
  have h2: "pending premature_game \<noteq> []"
    by (simp add: p)
  have h3: "\<forall>e\<in>set (pending premature_game). replayable 10 e"
    by (simp add: p r)
  have nf: "\<forall>lg. \<not> no_fault lg"
    by (simp add: no_fault_def)
  have base: "root_log premature_game = []" "applied (logic premature_game) = []"
    by (simp_all add: premature_game_def RepGame_init_def)
  from set_round_premature_end [OF h1 h2 h3, of no_fault] nf
  obtain g' where "set_round no_fault 10 premature_game = Inr g'"
    and "root_log g' = root_log premature_game @ [UnexpectedEnding] \<and>
      applied (logic g') = applied (logic premature_game) @ pending premature_game \<and>
      queue g' = [] \<and> last_action_timestamp g' = 10"
    by blast
  with h1 p r base show ?thesis by simp
qed

text \<open>
  C4 as stated fails: with \<open>init\<close> at 0 and \<open>instrA\<close> at 5 queued and no
  terminal record, a seek to 10 logs the unexpected ending and ends with lastTick
  10, the target, not short of it.
\<close>

theorem set_round_premature_end_counterexample:
  "map_sum id root_log (set_round no_fault 10 premature_game) = Inr [UnexpectedEnding] \<and>
   map_sum id last_action_timestamp (set_round no_fault 10 premature_game) = Inr 10"
  by (simp add: set_round_def premature_game_def RepGame_init_def replay_loop.simps
      tick_until.simps nextTick_def no_fault_def stop_def ex_init_def ex_instrA_def)

text \<open>
  C5, evaluated where it fails. A readable file whose first line is not JSON: the
  exception is not an \<open>OSError\<close>, \<open>finally: return r\<close> discards it, nothing is
  logged, no synthetic record is queued, and the constructor then fails on the empty
  queue. A bad line after a record leaves that record alone in the queue. An
  \<open>OSError\<close> only after a \<open>game_end\<close> record at tick 7 has been read gives a
  queue of two records and a total of 7. Only a source that fails before any record
  is read gives the single synthetic record and the total 0.
\<close>

theorem load_queue_bad_line:
  "load_queue [BadLine] [] = (0, [], []) \<and>
   RepManager_init [BadLine] = Inl IndexError \<and>
   load_queue [Rec (Some 0) (Some ''init'') ''init'', BadLine] [] = (0, [(0, ex_init)], []) \<and>
   load_queue [Rec (Some 7) (Some ''game_end'') ''gameEnd'', IOFault] [] =
     (7, [(7, ex_game_end), (0, synthetic_game_end)], [CorruptedFile]) \<and>
   load_queue [IOFault] [] = (0, [(0, synthetic_game_end)], [CorruptedFile])"
  by (simp add: RepManager_init_def RepGame_init_def load_queue_def ex_init_def ex_game_end_def)

text \<open>
  C6. The checkpoint store keeps its invariant (\<open>store_ok\<close>): after the
  constructor and any sequence of seeks, and from any such state through one more
  seek. A seek never overwrites a checkpoint: every entry present before is still
  there, unchanged, or it is the player the seek has recalled, which is then active
  and no longer stored. An entry that is new after the seek is the player the seek
  retired, stored under its lastTick, and that key had no entry before. So each
  key has one entry, each player is stored at most once, and the active player is
  not stored.
\<close>

theorem checkpoint_store_invariant:
  "(seek_from_start F src ts = Some (Inr m0) \<longrightarrow> store_ok m0) \<and>
   (store_ok m \<longrightarrow> Manager_set_round F T m = Some (Inr m') \<longrightarrow>
      store_ok m' \<and>
      (\<forall>kg\<in>set (games m). kg \<in> set (games m') \<or>
          ident (snd kg) = ident (active_game m') \<and> kg \<notin> set (games m')) \<and>
      (\<forall>kg\<in>set (games m'). kg \<in> set (games m) \<or>
          fst kg = last_action_timestamp (snd kg) \<and> \<not> sd_contains (fst kg) (games m) \<and>
          ident (snd kg) = ident (active_game m)))"
proof -
  have A: "store_ok m0" if "seek_from_start F src ts = Some (Inr m0)"
  proof -
    from that obtain m where "RepManager_init src = Inr m" and "seeks F ts m = Some (Inr m0)"
      by (auto simp: seek_from_start_def split: sum.splits)
    with RepManager_init_store seeks_store show "store_ok m0"
      by blast
  qed
  from A Manager_set_round_store [of F T m m'] show ?thesis
    by blast
qed

theorem checkpoint_store_invariant_witness:
  "\<exists>m m'. seek_from_start no_fault example_source [8, 3, 3, 12] = Some (Inr m) \<and>
      store_ok m \<and> map fst (games m) = [4, 9] \<and>
      map (\<lambda>kg. ident (snd kg)) (games m) = [1, 0] \<and> ident (active_game m) = 2 \<and>
      Manager_set_round no_fault 5 m = Some (Inr m') \<and>
      store_ok m' \<and> map fst (games m') = [9, 13] \<and>
      map (\<lambda>kg. ident (snd kg)) (games m') = [0, 2] \<and> ident (active_game m') = 1"
proof -
  obtain m' where run5:
      "seek_from_start no_fault example_source ([8, 3, 3, 12] @ [5]) = Some (Inr m')"
    and m': "map fst (games m') = [9, 13] \<and>
      map (\<lambda>kg. ident (snd kg)) (games m') = [0, 2] \<and> ident (active_game m') = 1"
    by (simp add: example_source_def eval_defs)
  from seek_from_start_snoc [OF run5] obtain m where
    run: "seek_from_start no_fault example_source [8, 3, 3, 12] = Some (Inr m)"
    and step: "Manager_set_round no_fault 5 m = Some (Inr m')"
    by blast
  have "\<exists>m1. seek_from_start no_fault example_source [8, 3, 3, 12] = Some (Inr m1) \<and>
      map fst (games m1) = [4, 9] \<and>
      map (\<lambda>kg. ident (snd kg)) (games m1) = [1, 0] \<and> ident (active_game m1) = 2"
    by (simp add: example_source_def eval_defs)
  with run have m: "map fst (games m) = [4, 9] \<and>
      map (\<lambda>kg. ident (snd kg)) (games m) = [1, 0] \<and> ident (active_game m) = 2"
    by auto
  from checkpoint_store_invariant [of no_fault example_source "[8, 3, 3, 12]" m m 5 m'] run step
  have "store_ok m" "store_ok m'"
    by simp_all
  with run m step m' show ?thesis
    by (intro exI [of _ m] exI [of _ m']) simp
qed

text \<open>
  C7. Every operation of a player keeps lastTick in step with the engine: after
  \<open>set_round\<close>, and at the end of any number of passes of \<open>mainloop\<close> (whether
  the loop has returned, is blocked or is still running), lastTick has not
  decreased, the engine history has only been extended, and the number of
  \<open>nextTick\<close> calls added equals the increase of lastTick.
\<close>

theorem lastTick_counts_ticks:
  "(set_round F T g = Inr g' \<longrightarrow> advanced g g') \<and>
   (mainloop F obs g = Inr out \<longrightarrow> advanced g (state_of out))"
  by (simp add: set_round_advanced mainloop_advanced)

theorem lastTick_counts_ticks_witness:
  "(\<exists>g'. set_round no_fault 10 premature_game = Inr g' \<and> advanced premature_game g' \<and>
      last_action_timestamp g' = 10 \<and> ticks (logic g') = 10) \<and>
   (\<exists>out. mainloop no_fault [obs_signal Toggle, obs_clock 3, obs_clock 3] premature_game =
        Inr out \<and> advanced premature_game (state_of out) \<and>
      last_action_timestamp (state_of out) = 3 \<and> ticks (logic (state_of out)) = 3)"
proof -
  obtain g' where s: "set_round no_fault 10 premature_game = Inr g'"
    and s': "last_action_timestamp g' = 10 \<and> ticks (logic g') = 10"
    by (simp add: set_round_def premature_game_def RepGame_init_def replay_loop.simps
      tick_until.simps nextTick_def no_fault_def stop_def ex_init_def ex_instrA_def ticks_def)
  obtain out where m: "mainloop no_fault [obs_signal Toggle, obs_clock 3, obs_clock 3]
      premature_game = Inr out"
    and m': "last_action_timestamp (state_of out) = 3 \<and> ticks (logic (state_of out)) = 3"
    by (simp add: mainloop_pass_def pass_body_def dispatch_def apply_action_def run_action_def
      catch_up.simps obs_signal_def obs_clock_def premature_game_def RepGame_init_def
      tick_until.simps nextTick_def no_fault_def ticks_def)
  from lastTick_counts_ticks
    [of no_fault 10 premature_game g' "[obs_signal Toggle, obs_clock 3, obs_clock 3]" out]
    s m
  have "advanced premature_game g'" and "advanced premature_game (state_of out)"
    by simp_all
  with s s' m m' show ?thesis by blast
qed

text \<open>
  C8. \<open>RepGame.set_round(targetTick)\<close> with \<open>targetTick \<le> lastTick\<close> changes
  nothing: the player (its lastTick, clock, buffer, queue and engine history) is
  returned as it was, and no error is raised.
\<close>

theorem set_round_noop:
  "timestamp \<le> last_action_timestamp g \<Longrightarrow> set_round F timestamp g = Inr g"
  by (simp add: set_round_def)

theorem set_round_noop_witness:
  "(5::int) \<le> last_action_timestamp
      ((RepGame_init 0)\<lparr>last_action_timestamp := 7, queue := [(20, ex_game_end)],
         action_buffer := Some (12, ex_instrB)\<rparr>) \<and>
   set_round no_fault 5
      ((RepGame_init 0)\<lparr>last_action_timestamp := 7, queue := [(20, ex_game_end)],
         action_buffer := Some (12, ex_instrB)\<rparr>) =
   Inr ((RepGame_init 0)\<lparr>last_action_timestamp := 7, queue := [(20, ex_game_end)],
         action_buffer := Some (12, ex_instrB)\<rparr>)"
  using set_round_noop
    [of 5 "(RepGame_init 0)\<lparr>last_action_timestamp := 7, queue := [(20, ex_game_end)],
         action_buffer := Some (12, ex_instrB)\<rparr>" no_fault]
  by simp

text \<open>
  C9. \<open>_load_queue\<close> does not stop at a terminal record: on a file of well-formed
  records every record is appended to the queue, in order, those after a
  \<open>game_end\<close> included; the returned total is the time of the last \<open>game_end\<close>
  record (0 when there is none); a record without a \<open>time\<close> field is loaded with
  timestamp 0 (\<open>time_field\<close>). Nothing is logged.
\<close>

theorem load_queue_loads_every_record:
  "load_queue (map Rec_of recs) target =
     (last_game_end_time recs, target @ map loaded_entry recs, [])"
  by (simp add: load_queue_def last_game_end_time_def load_loop_records)



end
